theory Spec2Isabelle
  imports Main "HOL-Library.Multiset"
begin

section \<open>Life cycle observer registry (packages/core/src/lifecycle-registry.ts)\<close>

text \<open>
  The theory embeds the class \<open>LifeCycleObserverRegistry\<close>: the discovery of observer
  bindings in a context, their grouping and ordering, and the notification of the groups
  for the start and stop events.
\<close>

subsection \<open>Bindings, tags and the context\<close>

text \<open>
  \<open>Binding\<close>, \<open>BindingType\<close>, \<open>BindingScope\<close> and \<open>Context\<close> come from the package
  \<open>@loopback/context\<close>, \<open>CoreBindings.Tags\<close> from \<open>./keys\<close>. The registry reads the
  fields \<open>key\<close>, \<open>type\<close>, \<open>scope\<close> and \<open>tagMap\<close> of a binding and calls \<open>find\<close> and
  \<open>get\<close> of the context; this is what the records below hold. A tag map sends a tag
  name to a string (\<open>binding.tag('server')\<close> stores the name itself,
  \<open>binding.tag({group: 'g1'})\<close> the given value); a missing property is \<open>None\<close>.
  The three tag names are not fixed here: every function takes them as the
  parameter \<open>T\<close>.
\<close>

datatype BindingType = CONSTANT | DYNAMIC_VALUE | CLASS | PROVIDER

datatype BindingScope = TRANSIENT | CONTEXT | SINGLETON

record Binding =
  key :: string
  type :: BindingType
  scope :: BindingScope
  tagMap :: "string \<rightharpoonup> string"

record Tags =
  LIFE_CYCLE_OBSERVER :: string
  LIFE_CYCLE_OBSERVER_GROUP :: string
  SERVER :: string

text \<open>What a rejected promise or a thrown exception carries.\<close>

datatype error = Error string

text \<open>
  The six event names, \<open>keyof LifeCycleObserver\<close>. An observer is indexed by the event
  (\<open>observer[event]\<close>) and every method is optional. A method runs on the state of the
  application (type \<open>'s\<close>) and either completes or throws; in both cases it leaves a state
  behind.
\<close>

datatype event = PreStart | Start | PostStart | PreStop | Stop | PostStop

type_synonym 's hook = "'s \<Rightarrow> error option \<times> 's"

type_synonym 's LifeCycleObserver = "event \<Rightarrow> 's hook option"

text \<open>
  The context: its bindings in the order \<open>find\<close> visits them, and the outcome of
  \<open>get(key)\<close>, a rejection or the observer bound to the key.
\<close>

record 's Context =
  registry :: "Binding list"
  get :: "string \<Rightarrow> error + 's LifeCycleObserver"

definition find :: "('s, 'x) Context_scheme \<Rightarrow> (Binding \<Rightarrow> bool) \<Rightarrow> Binding list" where
  "find c p = filter p (registry c)"

subsection \<open>The registry object\<close>

record LifeCycleObserverGroup =
  group :: string
  bindings :: "Binding list"

record LifeCycleObserverOptions =
  parallel :: "bool option"

record 's LifeCycleObserverRegistry =
  ctx :: "'s Context"
  options :: LifeCycleObserverOptions
  groupsByOrder :: "string list"

text \<open>The constructor: \<open>options\<close> defaults to \<open>{parallel: true}\<close>, the order to \<open>['server']\<close>.\<close>

definition new_LifeCycleObserverRegistry ::
  "'s Context \<Rightarrow> LifeCycleObserverOptions option \<Rightarrow> 's LifeCycleObserverRegistry" where
  "new_LifeCycleObserverRegistry c opts =
     \<lparr>ctx = c,
      options = (case opts of None \<Rightarrow> \<lparr>parallel = Some True\<rparr> | Some opt \<Rightarrow> opt),
      groupsByOrder = [''server'']\<rparr>"

text \<open>\<open>groups || ['server']\<close>: an array is truthy, also the empty one.\<close>

definition setGroupsByOrder ::
  "'s LifeCycleObserverRegistry \<Rightarrow> string list option \<Rightarrow> 's LifeCycleObserverRegistry" where
  "setGroupsByOrder this groups =
     this\<lparr>groupsByOrder := (case groups of None \<Rightarrow> [''server''] | Some gs \<Rightarrow> gs)\<rparr>"

text \<open>Truthiness of an optional string: \<open>undefined\<close> and the empty string are falsy.\<close>

fun truthy :: "string option \<Rightarrow> bool" where
  "truthy None = False"
| "truthy (Some s) = (s \<noteq> [])"

definition is_observer_binding :: "Tags \<Rightarrow> Binding \<Rightarrow> bool" where
  "is_observer_binding T binding =
     ((type binding = CONSTANT \<or> scope binding = SINGLETON) \<and>
      (tagMap binding (LIFE_CYCLE_OBSERVER T) \<noteq> None \<or> truthy (tagMap binding (SERVER T))))"

definition findObserverBindings ::
  "Tags \<Rightarrow> 's LifeCycleObserverRegistry \<Rightarrow> Binding list" where
  "findObserverBindings T this = find (ctx this) (is_observer_binding T)"

subsection \<open>Grouping and ordering\<close>

text \<open>
  \<open>getObserverGroup\<close>: the explicit group tag; when it is falsy, the first name of the
  order that the binding carries as a tag with itself as value; when that is falsy too,
  the empty string.
\<close>

definition getObserverGroup ::
  "Tags \<Rightarrow> 's LifeCycleObserverRegistry \<Rightarrow> Binding \<Rightarrow> string" where
  "getObserverGroup T this binding =
     (let group = tagMap binding (LIFE_CYCLE_OBSERVER_GROUP T);
          group = (if \<not> truthy group
                   then List.find (\<lambda>g. tagMap binding g = Some g) (groupsByOrder this)
                   else group)
      in (case group of None \<Rightarrow> [] | Some g \<Rightarrow> g))"

text \<open>
  A JavaScript \<open>Map\<close> keeps its keys in the order of their first insertion: it is an
  association list, \<open>Map_get\<close> reads it and \<open>Map_set\<close> replaces the value of a key in
  place or appends a new key.
\<close>

type_synonym ('k, 'v) Map = "('k \<times> 'v) list"

fun Map_get :: "('k, 'v) Map \<Rightarrow> 'k \<Rightarrow> 'v option" where
  "Map_get [] k = None"
| "Map_get ((k', v) # m) k = (if k' = k then Some v else Map_get m k)"

fun Map_set :: "('k, 'v) Map \<Rightarrow> 'k \<Rightarrow> 'v \<Rightarrow> ('k, 'v) Map" where
  "Map_set [] k v = [(k, v)]"
| "Map_set ((k', v') # m) k v = (if k' = k then (k, v) # m else (k', v') # Map_set m k v)"

text \<open>
  \<open>Array.prototype.indexOf\<close>: the first index of the element, \<open>-1\<close> when it is absent.
\<close>

fun indexOf :: "'a list \<Rightarrow> 'a \<Rightarrow> int" where
  "indexOf [] x = - 1"
| "indexOf (y # ys) x =
     (if y = x then 0 else (let i = indexOf ys x in if i < 0 then - 1 else i + 1))"

text \<open>
  \<open>Array.prototype.sort(compareFn)\<close> is a stable sort (ECMAScript 2019): an element
  goes before the elements that the comparison does not put before it, and keeps its
  place among those that compare equal.
\<close>

fun insert_sorted :: "('a \<Rightarrow> 'a \<Rightarrow> int) \<Rightarrow> 'a \<Rightarrow> 'a list \<Rightarrow> 'a list" where
  "insert_sorted compareFn x [] = [x]"
| "insert_sorted compareFn x (y # ys) =
     (if compareFn x y \<le> 0 then x # y # ys else y # insert_sorted compareFn x ys)"

fun Array_sort :: "('a \<Rightarrow> 'a \<Rightarrow> int) \<Rightarrow> 'a list \<Rightarrow> 'a list" where
  "Array_sort compareFn [] = []"
| "Array_sort compareFn (x # xs) = insert_sorted compareFn x (Array_sort compareFn xs)"

text \<open>
  The body of the first loop of \<open>sortObserverBindingsByGroup\<close>: the array of the group
  is looked up, created when missing, and the binding is pushed on it.
\<close>

definition addToGroupMap ::
  "(Binding \<Rightarrow> string) \<Rightarrow> (string, Binding list) Map \<Rightarrow> Binding \<Rightarrow> (string, Binding list) Map" where
  "addToGroupMap groupOf groupMap binding =
     (let group = groupOf binding in
      (case Map_get groupMap group of
         None \<Rightarrow> Map_set groupMap group ([] @ [binding])
       | Some bindingsInGroup \<Rightarrow> Map_set groupMap group (bindingsInGroup @ [binding])))"

definition sortObserverBindingsByGroup ::
  "Tags \<Rightarrow> 's LifeCycleObserverRegistry \<Rightarrow> Binding list \<Rightarrow> LifeCycleObserverGroup list" where
  "sortObserverBindingsByGroup T this bs =
     (let groupMap = foldl (addToGroupMap (getObserverGroup T this)) [] bs;
          groups = map (\<lambda>entry. \<lparr>group = fst entry, bindings = snd entry\<rparr>) groupMap
      in Array_sort
           (\<lambda>g1 g2. indexOf (groupsByOrder this) (group g1) - indexOf (groupsByOrder this) (group g2))
           groups)"

definition getObserverGroupsByOrder ::
  "Tags \<Rightarrow> 's LifeCycleObserverRegistry \<Rightarrow> LifeCycleObserverGroup list" where
  "getObserverGroupsByOrder T this = sortObserverBindingsByGroup T this (findObserverBindings T this)"

text \<open>The labels of a list in the order of their first occurrence.\<close>

fun first_seen :: "'a list \<Rightarrow> 'a list" where
  "first_seen [] = []"
| "first_seen (x # xs) = x # filter (\<lambda>y. y \<noteq> x) (first_seen xs)"

subsection \<open>Notification\<close>

text \<open>
  What the registry does to the outside is to call \<open>ctx.get\<close> and the methods of the
  observers. A run returns the rejection, if any, the state of the application that the
  methods have left, and the list of these calls in the order in which they were made,
  each with its outcome. The \<open>debug\<close> output is left out.
\<close>

datatype call = Get string "error option" | Invoke string event "error option"

fun outcome :: "call \<Rightarrow> error option" where
  "outcome (Get k r) = r"
| "outcome (Invoke k ev r) = r"

fun call_key :: "call \<Rightarrow> string" where
  "call_key (Get k r) = k"
| "call_key (Invoke k ev r) = k"

type_synonym 's result = "error option \<times> 's \<times> call list"

fun failure :: "'s result \<Rightarrow> error option" where
  "failure (r, s, l) = r"

fun state :: "'s result \<Rightarrow> 's" where
  "state (r, s, l) = s"

fun calls :: "'s result \<Rightarrow> call list" where
  "calls (r, s, l) = l"

text \<open>
  \<open>for (const x of xs) { await f(x); }\<close>: the elements in turn, each on the state the
  previous one has left; a rejection ends the loop and is the rejection of the whole.
\<close>

fun for_await :: "('a \<Rightarrow> 's \<Rightarrow> 's result) \<Rightarrow> 'a list \<Rightarrow> 's \<Rightarrow> 's result" where
  "for_await f [] s = (None, s, [])"
| "for_await f (x # xs) s =
     (case f x s of
        (Some e, s', l) \<Rightarrow> (Some e, s', l)
      | (None, s', l) \<Rightarrow> (case for_await f xs s' of (r, s'', l') \<Rightarrow> (r, s'', l @ l')))"

text \<open>
  \<open>await Promise.all(notifiers)\<close>, the notifiers having all been started: every one
  of them runs to its end, each on the state the previous one has left, also after one of
  them has been rejected. The promise is rejected with the first rejection; a later
  rejection is dropped.
\<close>

fun Promise_all :: "('a \<Rightarrow> 's \<Rightarrow> 's result) \<Rightarrow> 'a list \<Rightarrow> 's \<Rightarrow> 's result" where
  "Promise_all f [] s = (None, s, [])"
| "Promise_all f (x # xs) s =
     (case f x s of
        (r, s', l) \<Rightarrow>
          (case Promise_all f xs s' of
             (r', s'', l') \<Rightarrow> ((case r of None \<Rightarrow> r' | Some e \<Rightarrow> Some e), s'', l @ l')))"

text \<open>
  \<open>invokeObserver\<close>: the method is called when the observer has one. The key of the
  binding is passed along to label the call.
\<close>

definition invokeObserver ::
  "string \<Rightarrow> 's LifeCycleObserver \<Rightarrow> event \<Rightarrow> 's \<Rightarrow> 's result" where
  "invokeObserver k observer event s =
     (case observer event of
        None \<Rightarrow> (None, s, [])
      | Some method \<Rightarrow> (case method s of (r, s') \<Rightarrow> (r, s', [Invoke k event r])))"

text \<open>
  The closure \<open>notifyObserver\<close> of \<open>notifyObserverGroup\<close> calls \<open>this.ctx.get\<close> at once
  (\<open>ctx_get_call\<close>) and does the rest when the promise is settled (\<open>resume\<close>): a
  rejection is thrown on, a resolved observer is invoked.
\<close>

definition ctx_get_call :: "'s LifeCycleObserverRegistry \<Rightarrow> Binding \<Rightarrow> call" where
  "ctx_get_call this binding =
     Get (key binding)
       (case get (ctx this) (key binding) of Inl e \<Rightarrow> Some e | Inr observer \<Rightarrow> None)"

definition resume ::
  "'s LifeCycleObserverRegistry \<Rightarrow> event \<Rightarrow> Binding \<Rightarrow> 's \<Rightarrow> 's result" where
  "resume this event binding s =
     (case get (ctx this) (key binding) of
        Inl e \<Rightarrow> (Some e, s, [])
      | Inr observer \<Rightarrow> invokeObserver (key binding) observer event s)"

definition notifyObserver ::
  "'s LifeCycleObserverRegistry \<Rightarrow> event \<Rightarrow> Binding \<Rightarrow> 's \<Rightarrow> 's result" where
  "notifyObserver this event binding s =
     (case resume this event binding s of (r, s', l) \<Rightarrow> (r, s', ctx_get_call this binding # l))"

text \<open>
  \<open>notifyObserverGroup\<close>. Without \<open>parallel\<close> every binding is notified and awaited in
  turn, and a rejection ends the loop. With \<open>parallel\<close> the loop calls \<open>notifyObserver\<close>
  for every binding without awaiting, so every \<open>ctx.get\<close> is called first; then
  \<open>Promise.all\<close> is awaited. The started notifications resume in an order that the
  event loop chooses, not the registry: it is the parameter \<open>sched\<close>, which gets the
  event and the bindings of the group. All of them resume, also those that come after a
  failure: the methods of the other bindings of the group are still invoked, and the
  group is rejected with the first failure. Methods are atomic steps here: two methods
  that suspend and run interleaved are outside this model.
\<close>

definition notifyObserverGroup ::
  "(event \<Rightarrow> Binding list \<Rightarrow> Binding list) \<Rightarrow> 's LifeCycleObserverRegistry \<Rightarrow>
   LifeCycleObserverGroup \<Rightarrow> event \<Rightarrow> 's \<Rightarrow> 's result" where
  "notifyObserverGroup sched this g event s =
     (if parallel (options this) = Some True
      then (case Promise_all (resume this event) (sched event (bindings g)) s of
              (r, s', l) \<Rightarrow> (r, s', map (ctx_get_call this) (bindings g) @ l))
      else for_await (notifyObserver this event) (bindings g) s)"

definition notifyGroups ::
  "(event \<Rightarrow> Binding list \<Rightarrow> Binding list) \<Rightarrow> 's LifeCycleObserverRegistry \<Rightarrow>
   event list \<Rightarrow> LifeCycleObserverGroup list \<Rightarrow> 's \<Rightarrow> 's result" where
  "notifyGroups sched this events groups s =
     for_await (\<lambda>event. for_await (\<lambda>g. notifyObserverGroup sched this g event) groups) events s"

definition start ::
  "Tags \<Rightarrow> (event \<Rightarrow> Binding list \<Rightarrow> Binding list) \<Rightarrow> 's LifeCycleObserverRegistry \<Rightarrow>
   's \<Rightarrow> 's result" where
  "start T sched this s =
     (let groups = getObserverGroupsByOrder T this
      in notifyGroups sched this [PreStart, Start, PostStart] groups s)"

definition stop ::
  "Tags \<Rightarrow> (event \<Rightarrow> Binding list \<Rightarrow> Binding list) \<Rightarrow> 's LifeCycleObserverRegistry \<Rightarrow>
   's \<Rightarrow> 's result" where
  "stop T sched this s =
     (let groups = rev (getObserverGroupsByOrder T this)
      in notifyGroups sched this [PreStop, Stop, PostStop] groups s)"

subsection \<open>Reading the list of calls\<close>

text \<open>
  \<open>invoked c\<close>: the event of the method that the call \<open>c\<close> invokes, if it invokes one.
  \<open>resolves k c\<close>: the call \<open>c\<close> is a call of \<open>ctx.get\<close> for the key \<open>k\<close>.
  \<open>has_method this ev b\<close>: the binding \<open>b\<close> resolves to an observer that has a method
  for the event \<open>ev\<close>. \<open>members sched this ev g\<close>: the bindings of the group \<open>g\<close> in
  the order in which their methods are invoked, the order of the group in the serial mode
  and the order of the schedule in the parallel mode.
\<close>

fun invoked :: "call \<Rightarrow> event option" where
  "invoked (Get k r) = None"
| "invoked (Invoke k ev r) = Some ev"

fun resolves :: "string \<Rightarrow> call \<Rightarrow> bool" where
  "resolves k (Get k' r) = (k' = k)"
| "resolves k (Invoke k' ev r) = False"

definition has_method :: "'s LifeCycleObserverRegistry \<Rightarrow> event \<Rightarrow> Binding \<Rightarrow> bool" where
  "has_method this ev b =
     (case get (ctx this) (key b) of Inl e \<Rightarrow> False | Inr observer \<Rightarrow> observer ev \<noteq> None)"

definition members ::
  "(event \<Rightarrow> Binding list \<Rightarrow> Binding list) \<Rightarrow> 's LifeCycleObserverRegistry \<Rightarrow> event \<Rightarrow>
   LifeCycleObserverGroup \<Rightarrow> Binding list" where
  "members sched this ev g =
     (if parallel (options this) = Some True then sched ev (bindings g) else bindings g)"



subsection \<open>The fixtures of the test suite\<close>

text \<open>
  The tag names of the examples, and the helpers of the registry's tests:
  \<open>asLifeCycleObserverBinding\<close> tags a binding as an observer and puts it in the
  singleton scope, \<open>givenObserverBinding\<close> binds a class that way,
  \<open>givenServerBinding\<close> binds a class as a singleton with the server tag; both add
  the group tag when a group is given.
\<close>

definition CoreTags :: Tags where
  "CoreTags = \<lparr>LIFE_CYCLE_OBSERVER = ''lifeCycleObserver'',
               LIFE_CYCLE_OBSERVER_GROUP = ''lifeCycleObserverGroup'',
               SERVER = ''server''\<rparr>"

definition tag :: "string \<Rightarrow> string \<Rightarrow> Binding \<Rightarrow> Binding" where
  "tag name v binding = binding\<lparr>tagMap := (tagMap binding)(name \<mapsto> v)\<rparr>"

definition asLifeCycleObserverBinding :: "Binding \<Rightarrow> Binding" where
  "asLifeCycleObserverBinding binding =
     (tag (LIFE_CYCLE_OBSERVER CoreTags) (LIFE_CYCLE_OBSERVER CoreTags) binding)\<lparr>scope := SINGLETON\<rparr>"

definition bind :: "string \<Rightarrow> BindingType \<Rightarrow> Binding" where
  "bind k t = \<lparr>key = k, type = t, scope = TRANSIENT, tagMap = Map.empty\<rparr>"

definition givenObserverBinding :: "string \<Rightarrow> string option \<Rightarrow> Binding" where
  "givenObserverBinding k g =
     (let binding = asLifeCycleObserverBinding (bind k CLASS)
      in (case g of None \<Rightarrow> binding
          | Some g' \<Rightarrow> tag (LIFE_CYCLE_OBSERVER_GROUP CoreTags) g' binding))"

definition givenServerBinding :: "string \<Rightarrow> string option \<Rightarrow> Binding" where
  "givenServerBinding k g =
     (let serverBinding = (tag (SERVER CoreTags) (SERVER CoreTags) (bind k CLASS))\<lparr>scope := SINGLETON\<rparr>
      in (case g of None \<Rightarrow> serverBinding
          | Some g' \<Rightarrow> tag (LIFE_CYCLE_OBSERVER_GROUP CoreTags) g' serverBinding))"

text \<open>
  The observer of the test \<open>allows pre/post events\<close>: each of its six methods pushes
  the name of the event and the name of the observer on the array \<open>events\<close>.
\<close>

fun event_name :: "event \<Rightarrow> string" where
  "event_name PreStart = ''preStart''"
| "event_name Start = ''start''"
| "event_name PostStart = ''postStart''"
| "event_name PreStop = ''preStop''"
| "event_name Stop = ''stop''"
| "event_name PostStop = ''postStop''"

definition MockObserver :: "string \<Rightarrow> string list LifeCycleObserver" where
  "MockObserver name event = Some (\<lambda>events. (None, events @ [event_name event @ ''-'' @ name]))"

text \<open>
  The observer of the test \<open>starts/stops all registered life cycle observers by order\<close>
  has the methods \<open>start\<close> and \<open>stop\<close> only.
\<close>

definition StartStopObserver :: "string \<Rightarrow> string list LifeCycleObserver" where
  "StartStopObserver name event =
     (if event = Start \<or> event = Stop
      then Some (\<lambda>events. (None, events @ [event_name event @ ''-'' @ name]))
      else None)"

text \<open>An observer of the same kind whose method for one event throws.\<close>

definition ThrowingObserver :: "string \<Rightarrow> event \<Rightarrow> string list LifeCycleObserver" where
  "ThrowingObserver name bad event =
     Some (\<lambda>events.
       if event = bad then (Some (Error (event_name event @ ''-'' @ name @ '' failed'')), events)
       else (None, events @ [event_name event @ ''-'' @ name]))"

text \<open>A context that holds the given bindings, each with the observer it resolves to.\<close>

fun lookup :: "(Binding \<times> 'v) list \<Rightarrow> string \<Rightarrow> error + 'v" where
  "lookup [] k = Inl (Error (''The key '' @ k @ '' is not bound''))"
| "lookup ((b, v) # bvs) k = (if key b = k then Inr v else lookup bvs k)"

definition context_with :: "(Binding \<times> 's LifeCycleObserver) list \<Rightarrow> 's Context" where
  "context_with bvs = \<lparr>registry = map fst bvs, get = lookup bvs\<rparr>"

text \<open>What the helper \<open>getObserverGroups\<close> of the tests shows of a group.\<close>

definition group_keys :: "LifeCycleObserverGroup \<Rightarrow> string \<times> string list" where
  "group_keys g = (group g, map key (bindings g))"

text \<open>The registry of the test \<open>sorts servers as last group by default\<close>.\<close>

definition servers_last_registry :: "string list LifeCycleObserverRegistry" where
  "servers_last_registry =
     new_LifeCycleObserverRegistry
       (context_with
          [(givenServerBinding ''server-1'' (Some ''server''), MockObserver ''s1''),
           (givenServerBinding ''server-2'' None, MockObserver ''s2''),
           (givenObserverBinding ''my-observer-1'' (Some ''g1''), MockObserver ''1''),
           (givenObserverBinding ''my-observer-2'' (Some ''g2''), MockObserver ''2''),
           (givenObserverBinding ''my-observer-3'' None, MockObserver ''3'')])
       None"

text \<open>The registry of the test \<open>sorts life cycle observers by group\<close>.\<close>

definition by_group_registry :: "string list LifeCycleObserverRegistry" where
  "by_group_registry =
     setGroupsByOrder
       (new_LifeCycleObserverRegistry
          (context_with
             [(givenObserverBinding ''my-observer-1'' (Some ''g1''), MockObserver ''1''),
              (givenObserverBinding ''my-observer-2'' (Some ''g2''), MockObserver ''2''),
              (givenObserverBinding ''my-observer-3'' (Some ''g1''), MockObserver ''3'')])
          None)
       (Some [''g1'', ''g2''])"

text \<open>
  The registry of the test \<open>allows pre/post events\<close>: the order is \<open>['g1', 'g2']\<close>, the
  observer \<open>A\<close> is a constant tagged with the group \<open>g1\<close>, the observer \<open>B\<close> one tagged
  with the group \<open>g2\<close>. The options and the order of registration are left open.
\<close>

definition givenConstantBinding :: "string \<Rightarrow> string \<Rightarrow> Binding" where
  "givenConstantBinding k g =
     asLifeCycleObserverBinding (tag (LIFE_CYCLE_OBSERVER_GROUP CoreTags) g (bind k CONSTANT))"

definition two_groups_registry ::
  "LifeCycleObserverOptions option \<Rightarrow> bool \<Rightarrow> string list LifeCycleObserver \<Rightarrow>
   string list LifeCycleObserverRegistry" where
  "two_groups_registry opts b_first observerB =
     setGroupsByOrder
       (new_LifeCycleObserverRegistry
          (context_with
             (if b_first
              then [(givenConstantBinding ''B'' ''g2'', observerB),
                    (givenConstantBinding ''A'' ''g1'', MockObserver ''A'')]
              else [(givenConstantBinding ''A'' ''g1'', MockObserver ''A''),
                    (givenConstantBinding ''B'' ''g2'', observerB)]))
          opts)
       (Some [''g1'', ''g2''])"

text \<open>
  A registry with two observers \<open>A\<close> and \<open>B\<close> in the same group \<open>g1\<close>, and one with
  two observers in each of the groups \<open>g1\<close> and \<open>g2\<close>, registered in the order
  \<open>B1\<close>, \<open>A1\<close>, \<open>B2\<close>, \<open>A2\<close>.
\<close>

definition same_group_registry ::
  "LifeCycleObserverOptions option \<Rightarrow> string list LifeCycleObserver \<Rightarrow>
   string list LifeCycleObserver \<Rightarrow> string list LifeCycleObserverRegistry" where
  "same_group_registry opts observerA observerB =
     setGroupsByOrder
       (new_LifeCycleObserverRegistry
          (context_with
             [(givenConstantBinding ''A'' ''g1'', observerA),
              (givenConstantBinding ''B'' ''g1'', observerB)])
          opts)
       (Some [''g1'', ''g2''])"

definition two_by_two_registry ::
  "LifeCycleObserverOptions option \<Rightarrow> string list LifeCycleObserverRegistry" where
  "two_by_two_registry opts =
     setGroupsByOrder
       (new_LifeCycleObserverRegistry
          (context_with
             [(givenConstantBinding ''B1'' ''g2'', MockObserver ''B1''),
              (givenConstantBinding ''A1'' ''g1'', MockObserver ''A1''),
              (givenConstantBinding ''B2'' ''g2'', MockObserver ''B2''),
              (givenConstantBinding ''A2'' ''g1'', MockObserver ''A2'')])
          opts)
       (Some [''g1'', ''g2''])"

text \<open>
  A registry with one observer, bound as a constant and tagged as an observer without
  the helper \<open>asLifeCycleObserverBinding\<close>: its scope is the default one, transient.
\<close>

definition transient_constant_binding :: Binding where
  "transient_constant_binding =
     tag (LIFE_CYCLE_OBSERVER CoreTags) (LIFE_CYCLE_OBSERVER CoreTags) (bind ''my-observer'' CONSTANT)"

definition transient_constant_registry :: "string list LifeCycleObserverRegistry" where
  "transient_constant_registry =
     new_LifeCycleObserverRegistry
       (context_with [(transient_constant_binding, StartStopObserver ''X'')]) None"

text \<open>
  The same registry with a second observer, a class bound in the transient scope and
  tagged as an observer.
\<close>

definition transient_class_binding :: Binding where
  "transient_class_binding =
     tag (LIFE_CYCLE_OBSERVER CoreTags) (LIFE_CYCLE_OBSERVER CoreTags) (bind ''my-class'' CLASS)"

definition transient_class_registry :: "string list LifeCycleObserverRegistry" where
  "transient_class_registry =
     new_LifeCycleObserverRegistry
       (context_with [(transient_constant_binding, StartStopObserver ''X''),
                      (transient_class_binding, StartStopObserver ''Y'')]) None"

text \<open>The schedule that resumes the notifications of a group in the order of the group.\<close>

definition in_order :: "event \<Rightarrow> Binding list \<Rightarrow> Binding list" where
  "in_order event bs = bs"

subsection \<open>Grouping on a store\<close>

text \<open>
  \<open>sortObserverBindingsByGroup\<close> works on arrays, which are objects that are shared and
  changed in place: it pushes on the arrays of the group map and sorts the array of the
  groups with \<open>Array.prototype.sort\<close>. To state what a call changes, the function is
  embedded a second time, on a store. The store is the list of the arrays allocated so
  far and a reference is an index in it; an array is allocated at the end of the list.
  The array of the configured order (\<open>this.groupsByOrder\<close>), the bindings of the context
  and the argument \<open>bindings\<close> are references; a group object holds its label and the
  reference of its array of bindings. The \<open>Map\<close> is local to the call and stays a value.
\<close>

type_synonym ref = nat

datatype object =
  StringArray "string list"
| BindingArray "Binding list"
| GroupArray "(string \<times> ref) list"

type_synonym store = "object list"

definition alloc :: "store \<Rightarrow> object \<Rightarrow> ref \<times> store" where
  "alloc h v = (length h, h @ [v])"

definition strings_at :: "store \<Rightarrow> ref \<Rightarrow> string list" where
  "strings_at h r =
     (if r < length h then (case h ! r of StringArray xs \<Rightarrow> xs | _ \<Rightarrow> []) else [])"

definition bindings_at :: "store \<Rightarrow> ref \<Rightarrow> Binding list" where
  "bindings_at h r =
     (if r < length h then (case h ! r of BindingArray bs \<Rightarrow> bs | _ \<Rightarrow> []) else [])"

definition groups_at :: "store \<Rightarrow> ref \<Rightarrow> (string \<times> ref) list" where
  "groups_at h r =
     (if r < length h then (case h ! r of GroupArray gs \<Rightarrow> gs | _ \<Rightarrow> []) else [])"

text \<open>\<open>array.push(binding)\<close> changes the array that the reference points to.\<close>

definition push :: "store \<Rightarrow> ref \<Rightarrow> Binding \<Rightarrow> store" where
  "push h r binding = (if r < length h then h[r := BindingArray (bindings_at h r @ [binding])] else h)"

definition getObserverGroup_on_store :: "Tags \<Rightarrow> store \<Rightarrow> ref \<Rightarrow> Binding \<Rightarrow> string" where
  "getObserverGroup_on_store T h groupsByOrder_ref binding =
     (let group = tagMap binding (LIFE_CYCLE_OBSERVER_GROUP T);
          group = (if \<not> truthy group
                   then List.find (\<lambda>g. tagMap binding g = Some g) (strings_at h groupsByOrder_ref)
                   else group)
      in (case group of None \<Rightarrow> [] | Some g \<Rightarrow> g))"

text \<open>
  The body of the first loop: a missing group gets a new, empty array, and the binding
  is pushed on the array of its group.
\<close>

fun addToGroupMap_on_store ::
  "Tags \<Rightarrow> ref \<Rightarrow> (string, ref) Map \<times> store \<Rightarrow> Binding \<Rightarrow> (string, ref) Map \<times> store" where
  "addToGroupMap_on_store T groupsByOrder_ref (groupMap, h) binding =
     (let group = getObserverGroup_on_store T h groupsByOrder_ref binding in
      (case Map_get groupMap group of
         None \<Rightarrow>
           (case alloc h (BindingArray []) of
              (bindingsInGroup, h') \<Rightarrow>
                (Map_set groupMap group bindingsInGroup, push h' bindingsInGroup binding))
       | Some bindingsInGroup \<Rightarrow> (groupMap, push h bindingsInGroup binding)))"

text \<open>
  The whole function: the loop over the argument, the new array of the groups, and the
  sort of that array in place. It returns the reference of the array of the groups.
\<close>

definition sortObserverBindingsByGroup_on_store ::
  "Tags \<Rightarrow> ref \<Rightarrow> ref \<Rightarrow> store \<Rightarrow> ref \<times> store" where
  "sortObserverBindingsByGroup_on_store T groupsByOrder_ref bindings_ref h =
     (case foldl (addToGroupMap_on_store T groupsByOrder_ref) ([], h) (bindings_at h bindings_ref) of
        (groupMap, h1) \<Rightarrow>
          (case alloc h1 (GroupArray groupMap) of
             (groups, h2) \<Rightarrow>
               (groups,
                h2[groups := GroupArray
                     (Array_sort
                        (\<lambda>g1 g2. indexOf (strings_at h2 groupsByOrder_ref) (fst g1) -
                                 indexOf (strings_at h2 groupsByOrder_ref) (fst g2))
                        (groups_at h2 groups))])))"

text \<open>
  \<open>getObserverGroupsByOrder\<close>: \<open>ctx.find\<close> returns a new array with the bindings of the
  context that pass the filter, and the groups are computed from it.
\<close>

definition getObserverGroupsByOrder_on_store ::
  "Tags \<Rightarrow> ref \<Rightarrow> ref \<Rightarrow> store \<Rightarrow> ref \<times> store" where
  "getObserverGroupsByOrder_on_store T registry_ref groupsByOrder_ref h =
     (case alloc h (BindingArray (filter (is_observer_binding T) (bindings_at h registry_ref))) of
        (found, h') \<Rightarrow> sortObserverBindingsByGroup_on_store T groupsByOrder_ref found h')"

text \<open>
  The group map that a map of references stands for, and the groups that a reference to
  an array of groups stands for.
\<close>

definition read_map :: "store \<Rightarrow> (string, ref) Map \<Rightarrow> (string, Binding list) Map" where
  "read_map h m = map (\<lambda>entry. (fst entry, bindings_at h (snd entry))) m"

definition read_groups :: "store \<Rightarrow> ref \<Rightarrow> LifeCycleObserverGroup list" where
  "read_groups h r = map (\<lambda>entry. \<lparr>group = fst entry, bindings = bindings_at h (snd entry)\<rparr>) (groups_at h r)"

text \<open>
  The store of the test \<open>sorts life cycle observers by group\<close>: the configured order at
  the reference 0, the bindings of the context at the reference 1.
\<close>

definition by_group_store :: store where
  "by_group_store =
     [StringArray [''g1'', ''g2''],
      BindingArray [givenObserverBinding ''my-observer-1'' (Some ''g1''),
                    givenObserverBinding ''my-observer-2'' (Some ''g2''),
                    givenObserverBinding ''my-observer-3'' (Some ''g1'')]]"

section \<open>Grouping and ordering: proofs\<close>

subsection \<open>The group map in closed form\<close>

lemma filter_first_seen: "filter P (first_seen xs) = first_seen (filter P xs)"
proof (induction xs)
  case Nil
  show ?case by simp
next
  case (Cons x xs)
  show ?case
  proof (cases "P x")
    case True
    have "filter P (filter (\<lambda>y. y \<noteq> x) (first_seen xs)) = filter (\<lambda>y. y \<noteq> x) (filter P (first_seen xs))"
      by (simp add: conj_commute)
    with True Cons show ?thesis by simp
  next
    case False
    have "filter P (filter (\<lambda>y. y \<noteq> x) (first_seen xs)) = filter P (first_seen xs)"
      using False by (auto intro: filter_cong)
    with False Cons show ?thesis by simp
  qed
qed

lemma set_first_seen: "set (first_seen xs) = set xs"
  by (induction xs) auto

lemma distinct_first_seen: "distinct (first_seen xs)"
  by (induction xs) (auto simp: set_first_seen)

lemma keys_Map_set:
  "map fst (Map_set m k v) = (if k \<in> fst ` set m then map fst m else map fst m @ [k])"
  by (induction m) (force simp: image_iff)+

lemma Map_get_Map_set: "Map_get (Map_set m k v) g = (if g = k then Some v else Map_get m g)"
  by (induction m) auto

lemma keys_addToGroupMap:
  "map fst (addToGroupMap f m b) = (if f b \<in> fst ` set m then map fst m else map fst m @ [f b])"
  by (simp add: addToGroupMap_def Let_def keys_Map_set split: option.split)

lemma Map_get_addToGroupMap:
  "Map_get (addToGroupMap f m b) g =
     (if g = f b then Some ((case Map_get m g of None \<Rightarrow> [] | Some v \<Rightarrow> v) @ [b]) else Map_get m g)"
  by (simp add: addToGroupMap_def Let_def Map_get_Map_set split: option.split)

lemma keys_groupMap:
  "map fst (foldl (addToGroupMap f) m bs) =
     map fst m @ first_seen (filter (\<lambda>g. g \<notin> fst ` set m) (map f bs))"
proof (induction bs arbitrary: m)
  case Nil
  show ?case by simp
next
  case (Cons b bs)
  show ?case
  proof (cases "f b \<in> fst ` set m")
    case True
    then have "set (map fst (addToGroupMap f m b)) = set (map fst m)"
      by (simp add: keys_addToGroupMap)
    then have "fst ` set (addToGroupMap f m b) = fst ` set m" by simp
    with True Cons[of "addToGroupMap f m b"] show ?thesis
      by (simp add: keys_addToGroupMap)
  next
    case False
    then have k: "map fst (addToGroupMap f m b) = map fst m @ [f b]"
      by (simp add: keys_addToGroupMap)
    then have "set (map fst (addToGroupMap f m b)) = set (map fst m @ [f b])" by simp
    then have s: "fst ` set (addToGroupMap f m b) = insert (f b) (fst ` set m)" by simp
    have "filter (\<lambda>g. g \<notin> insert (f b) (fst ` set m)) (map f bs)
          = filter (\<lambda>y. y \<noteq> f b) (filter (\<lambda>g. g \<notin> fst ` set m) (map f bs))"
      by (auto intro: filter_cong)
    with False k s Cons[of "addToGroupMap f m b"] show ?thesis
      by (simp add: filter_first_seen)
  qed
qed

lemma Map_get_groupMap:
  "Map_get (foldl (addToGroupMap f) m bs) g =
     (if Map_get m g = None \<and> g \<notin> f ` set bs then None
      else Some ((case Map_get m g of None \<Rightarrow> [] | Some v \<Rightarrow> v) @ filter (\<lambda>b. f b = g) bs))"
proof (induction bs arbitrary: m)
  case Nil
  show ?case by (simp split: option.split)
next
  case (Cons b bs)
  show ?case
    by (simp add: Cons Map_get_addToGroupMap split: option.split) 
qed

lemma Map_eq_keys:
  "distinct (map fst m) \<Longrightarrow> m = map (\<lambda>k. (k, the (Map_get m k))) (map fst m)"
proof (induction m)
  case Nil
  show ?case by simp
next
  case (Cons p m)
  obtain k v where p: "p = (k, v)" by (cases p)
  from Cons.prems p have nk: "k \<notin> fst ` set m" and d: "distinct (map fst m)" by auto
  have "map (\<lambda>k'. (k', the (Map_get ((k, v) # m) k'))) (map fst m) = map (\<lambda>k'. (k', the (Map_get m k'))) (map fst m)"
    using nk by (intro map_cong) auto
  with Cons.IH[OF d] p show ?case by simp
qed

lemma groupMap_closed:
  "foldl (addToGroupMap f) [] bs = map (\<lambda>g. (g, filter (\<lambda>b. f b = g) bs)) (first_seen (map f bs))"
proof -
  let ?m = "foldl (addToGroupMap f) [] bs"
  have keys: "map fst ?m = first_seen (map f bs)"
    using keys_groupMap[of f "[]" bs] by simp
  then have "distinct (map fst ?m)" by (simp add: distinct_first_seen)
  from Map_eq_keys[OF this] have "?m = map (\<lambda>k. (k, the (Map_get ?m k))) (first_seen (map f bs))"
    using keys by simp
  also have "\<dots> = map (\<lambda>g. (g, filter (\<lambda>b. f b = g) bs)) (first_seen (map f bs))"
    by (intro map_cong) (auto simp: Map_get_groupMap set_first_seen)
  finally show ?thesis .
qed

lemma insert_sorted_insort_key:
  "insert_sorted (\<lambda>a b. k a - k b) x ys = insort_key k x ys" for k :: "'a \<Rightarrow> int"
  by (induction ys) auto

lemma Array_sort_sort_key:
  "Array_sort (\<lambda>a b. k a - k b) xs = sort_key k xs" for k :: "'a \<Rightarrow> int"
  by (induction xs) (auto simp: insert_sorted_insort_key)

lemma indexOf_absent: "indexOf xs x = - 1 \<longleftrightarrow> x \<notin> set xs"
  and indexOf_present: "0 \<le> indexOf xs x \<longleftrightarrow> x \<in> set xs"
  and indexOf_ge: "- 1 \<le> indexOf xs x"
  by (induction xs) (auto simp: Let_def)

lemma sortObserverBindingsByGroup_closed:
  "sortObserverBindingsByGroup T this bs =
     sort_key (\<lambda>g. indexOf (groupsByOrder this) (group g))
       (map (\<lambda>g. \<lparr>group = g, bindings = filter (\<lambda>b. getObserverGroup T this b = g) bs\<rparr>)
            (first_seen (map (getObserverGroup T this) bs)))"
  by (simp add: sortObserverBindingsByGroup_def Let_def groupMap_closed Array_sort_sort_key o_def)

lemma mset_concat_perm:
  "mset xss = mset yss \<Longrightarrow> mset (concat xss) = mset (concat yss)"
proof -
  assume "mset xss = mset yss"
  then have "image_mset mset (mset xss) = image_mset mset (mset yss)" by simp
  then have "sum_mset (image_mset mset (mset xss)) = sum_mset (image_mset mset (mset yss))" by simp
  then show ?thesis by (simp add: mset_concat flip: sum_mset_sum_list)
qed

lemma mset_concat_groups:
  "distinct gs \<Longrightarrow> f ` set bs \<subseteq> set gs \<Longrightarrow>
   mset (concat (map (\<lambda>g. filter (\<lambda>b. f b = g) bs) gs)) = mset bs"
proof (induction gs arbitrary: bs)
  case Nil
  then show ?case by simp
next
  case (Cons g gs)
  let ?rest = "filter (\<lambda>b. f b \<noteq> g) bs"
  have sub: "f ` set ?rest \<subseteq> set gs" using Cons.prems by auto
  have d: "distinct gs" and ng: "g \<notin> set gs" using Cons.prems by auto
  have same: "map (\<lambda>g'. filter (\<lambda>b. f b = g') bs) gs = map (\<lambda>g'. filter (\<lambda>b. f b = g') ?rest) gs"
    using ng by (intro map_cong refl) (auto intro: filter_cong)
  have split: "mset (filter (\<lambda>b. f b = g) bs) + mset ?rest = mset bs"
    by (induction bs) simp_all
  have "mset (concat (map (\<lambda>g'. filter (\<lambda>b. f b = g') bs) (g # gs)))
        = mset (filter (\<lambda>b. f b = g) bs) + mset (concat (map (\<lambda>g'. filter (\<lambda>b. f b = g') bs) gs))"
    by simp
  also have "\<dots> = mset (filter (\<lambda>b. f b = g) bs) + mset (concat (map (\<lambda>g'. filter (\<lambda>b. f b = g') ?rest) gs))"
    by (simp only: same)
  also have "\<dots> = mset (filter (\<lambda>b. f b = g) bs) + mset ?rest"
    by (simp only: Cons.IH[OF d sub])
  also have "\<dots> = mset bs" by (rule split)
  finally show ?case .
qed

lemma sorted_split:
  "sorted (map k xs) \<Longrightarrow> xs = filter (\<lambda>x. k x \<le> c) xs @ filter (\<lambda>x. \<not> k x \<le> c) xs"
  for k :: "'a \<Rightarrow> int"
proof (induction xs)
  case Nil
  show ?case by simp
next
  case (Cons x xs)
  show ?case
  proof (cases "k x \<le> c")
    case True
    with Cons show ?thesis by simp
  next
    case False
    with Cons.prems have "\<forall>y\<in>set xs. \<not> k y \<le> c" by auto
    then have "filter (\<lambda>x. k x \<le> c) xs = []" and "filter (\<lambda>x. \<not> k x \<le> c) xs = xs"
      by (auto simp: filter_empty_conv filter_id_conv)
    with False show ?thesis by simp
  qed
qed


lemmas fixture_defs =
  servers_last_registry_def by_group_registry_def two_groups_registry_def
  same_group_registry_def two_by_two_registry_def
  givenConstantBinding_def transient_constant_binding_def transient_constant_registry_def
  transient_class_binding_def transient_class_registry_def new_LifeCycleObserverRegistry_def
  setGroupsByOrder_def context_with_def givenServerBinding_def givenObserverBinding_def
  asLifeCycleObserverBinding_def tag_def bind_def CoreTags_def

lemmas grouping_defs =
  getObserverGroupsByOrder_def sortObserverBindingsByGroup_def findObserverBindings_def
  find_def is_observer_binding_def getObserverGroup_def addToGroupMap_def group_keys_def

lemma servers_last_groups:
  "map group_keys (getObserverGroupsByOrder CoreTags servers_last_registry) =
     [(''g1'', [''my-observer-1'']), (''g2'', [''my-observer-2'']),
      ([], [''my-observer-3'']), (''server'', [''server-1'', ''server-2''])]"
  by (simp add: fixture_defs grouping_defs Let_def)

lemma by_group_groups:
  "map group_keys (getObserverGroupsByOrder CoreTags by_group_registry) =
     [(''g1'', [''my-observer-1'', ''my-observer-3'']), (''g2'', [''my-observer-2''])]"
  by (simp add: fixture_defs grouping_defs Let_def)

lemma mset_bindings_sorted:
  "mset (concat (map bindings (sortObserverBindingsByGroup T this bs))) = mset bs"
proof -
  let ?f = "getObserverGroup T this"
  let ?k = "\<lambda>g. indexOf (groupsByOrder this) (group g)"
  let ?mk = "\<lambda>g. \<lparr>group = g, bindings = filter (\<lambda>b. ?f b = g) bs\<rparr>"
  let ?U = "map ?mk (first_seen (map ?f bs))"
  let ?gs = "sortObserverBindingsByGroup T this bs"
  have gs: "?gs = sort_key ?k ?U" by (rule sortObserverBindingsByGroup_closed)
  have "mset ?gs = mset ?U" by (simp add: gs)
  then have "image_mset bindings (mset ?gs) = image_mset bindings (mset ?U)" by (rule arg_cong)
  then have "mset (map bindings ?gs) = mset (map bindings ?U)" by (simp only: mset_map)
  then have "mset (concat (map bindings ?gs)) = mset (concat (map bindings ?U))"
    by (rule mset_concat_perm)
  also have "map bindings ?U = map (\<lambda>g. filter (\<lambda>b. ?f b = g) bs) (first_seen (map ?f bs))"
    by (simp add: o_def)
  also have "mset (concat \<dots>) = mset bs"
    by (rule mset_concat_groups) (simp_all add: distinct_first_seen set_first_seen)
  finally show ?thesis .
qed

lemma mset_bindings_groups:
  "mset (concat (map bindings (getObserverGroupsByOrder T this))) = mset (findObserverBindings T this)"
  by (simp add: getObserverGroupsByOrder_def mset_bindings_sorted)

lemma mset_bindings_groups_rev:
  "mset (concat (map bindings (rev (getObserverGroupsByOrder T this))))
     = mset (findObserverBindings T this)"
proof -
  have "mset (map bindings (rev (getObserverGroupsByOrder T this)))
          = mset (map bindings (getObserverGroupsByOrder T this))"
    by (simp add: rev_map)
  from mset_concat_perm[OF this] show ?thesis by (simp only: mset_bindings_groups)
qed

subsection \<open>Groups outside the configured order\<close>

text \<open>
  C1, as the specification states it: the groups whose label is not in the configured
  order come after all the groups whose label is in it. The registry of the test
  \<open>sorts servers as last group by default\<close> refutes it: its order is \<open>['server']\<close>,
  and the three groups \<open>g1\<close>, \<open>g2\<close> and the one with the empty label, none of them in
  the order, come before the group \<open>server\<close>.
\<close>

theorem absent_groups_last_counterexample:
  "groupsByOrder servers_last_registry = [''server''] \<and>
   map group_keys
     (sortObserverBindingsByGroup CoreTags servers_last_registry
        (findObserverBindings CoreTags servers_last_registry)) =
     [(''g1'', [''my-observer-1'']), (''g2'', [''my-observer-2'']),
      ([], [''my-observer-3'']), (''server'', [''server-1'', ''server-2''])]"
  using servers_last_groups
  by (simp add: getObserverGroupsByOrder_def servers_last_registry_def
        new_LifeCycleObserverRegistry_def)

text \<open>
  C1, amended: for every list of bindings and every configured order, the groups whose
  label is absent from the order come before all the groups whose label is in it
  (\<open>indexOf\<close> gives them \<open>-1\<close>), in the order in which their labels are first seen in
  the list; the whole result is sorted by the index of the label in the order.
\<close>

theorem absent_groups_first:
  "let order = groupsByOrder this; gs = sortObserverBindingsByGroup T this bs in
     gs = filter (\<lambda>g. group g \<notin> set order) gs @ filter (\<lambda>g. group g \<in> set order) gs \<and>
     map group (filter (\<lambda>g. group g \<notin> set order) gs) =
       first_seen (filter (\<lambda>g. g \<notin> set order) (map (getObserverGroup T this) bs)) \<and>
     sorted (map (\<lambda>g. indexOf order (group g)) gs)"
proof -
  let ?order = "groupsByOrder this"
  let ?f = "getObserverGroup T this"
  let ?k = "\<lambda>g. indexOf ?order (group g)"
  let ?U = "map (\<lambda>g. \<lparr>group = g, bindings = filter (\<lambda>b. ?f b = g) bs\<rparr>) (first_seen (map ?f bs))"
  let ?gs = "sortObserverBindingsByGroup T this bs"
  have gs: "?gs = sort_key ?k ?U" by (rule sortObserverBindingsByGroup_closed)
  have absent: "\<And>g. (?k g \<le> - 1) = (group g \<notin> set ?order)"
    using indexOf_absent[of ?order] indexOf_ge[of ?order] by (metis order_antisym order_refl)
  have absent': "\<And>g. (?k g = - 1) = (group g \<notin> set ?order)"
    by (simp add: indexOf_absent)
  have sorted: "sorted (map ?k ?gs)" unfolding gs by (rule sorted_sort_key)
  from sorted_split[OF this, of "- 1"]
  have 1: "?gs = filter (\<lambda>g. group g \<notin> set ?order) ?gs @ filter (\<lambda>g. group g \<in> set ?order) ?gs"
    by (simp add: absent)
  have "filter (\<lambda>g. group g \<notin> set ?order) ?gs = filter (\<lambda>g. ?k g = - 1) (sort_key ?k ?U)"
    by (simp add: absent' gs)
  also have "\<dots> = filter (\<lambda>g. ?k g = - 1) ?U" by (rule sort_key_stable)
  also have "\<dots> = filter (\<lambda>g. group g \<notin> set ?order) ?U" by (simp add: absent')
  finally have "map group (filter (\<lambda>g. group g \<notin> set ?order) ?gs)
      = filter (\<lambda>g. g \<notin> set ?order) (first_seen (map ?f bs))"
    by (simp add: filter_map o_def)
  then have 2: "map group (filter (\<lambda>g. group g \<notin> set ?order) ?gs)
      = first_seen (filter (\<lambda>g. g \<notin> set ?order) (map ?f bs))"
    by (simp add: filter_first_seen)
  show ?thesis unfolding Let_def by (intro conjI 1 2 sorted)
qed

theorem absent_groups_first_witness:
  "map group
     (filter (\<lambda>g. group g \<notin> set [''server''])
        (sortObserverBindingsByGroup CoreTags servers_last_registry
           (findObserverBindings CoreTags servers_last_registry))) = [''g1'', ''g2'', []]"
proof -
  have order: "groupsByOrder servers_last_registry = [''server'']"
    by (simp add: servers_last_registry_def new_LifeCycleObserverRegistry_def)
  have "map (getObserverGroup CoreTags servers_last_registry)
          (findObserverBindings CoreTags servers_last_registry) =
        [''server'', ''server'', ''g1'', ''g2'', []]"
    by (simp add: fixture_defs grouping_defs Let_def)
  then show ?thesis
    using absent_groups_first [of servers_last_registry CoreTags
        "findObserverBindings CoreTags servers_last_registry"]
    by (simp add: order Let_def)
qed

subsection \<open>The groups partition the bindings\<close>

text \<open>
  C8: every binding of the input is in exactly one group of the result; a group holds
  the bindings of its label in the order of the input, and is not empty; the labels of
  the groups are distinct, and the groups together hold the bindings of the input, each
  as often as the input does.
\<close>

theorem sortObserverBindingsByGroup_partition:
  "let gs = sortObserverBindingsByGroup T this bs in
     (\<forall>b\<in>set bs. \<exists>!g. g \<in> set gs \<and> b \<in> set (bindings g)) \<and>
     (\<forall>g\<in>set gs. bindings g = filter (\<lambda>b. getObserverGroup T this b = group g) bs \<and> bindings g \<noteq> []) \<and>
     distinct (map group gs) \<and>
     mset (concat (map bindings gs)) = mset bs"
proof -
  let ?f = "getObserverGroup T this"
  let ?k = "\<lambda>g. indexOf (groupsByOrder this) (group g)"
  let ?mk = "\<lambda>g. \<lparr>group = g, bindings = filter (\<lambda>b. ?f b = g) bs\<rparr>"
  let ?U = "map ?mk (first_seen (map ?f bs))"
  let ?gs = "sortObserverBindingsByGroup T this bs"
  have gs: "?gs = sort_key ?k ?U" by (rule sortObserverBindingsByGroup_closed)
  have set_gs: "set ?gs = ?mk ` ?f ` set bs" by (simp add: gs set_first_seen)
  have members: "\<forall>g\<in>set ?gs. bindings g = filter (\<lambda>b. ?f b = group g) bs \<and> bindings g \<noteq> []"
    unfolding set_gs by (auto simp: filter_empty_conv)
  have one: "\<forall>b\<in>set bs. \<exists>!g. g \<in> set ?gs \<and> b \<in> set (bindings g)"
  proof
    fix b assume b: "b \<in> set bs"
    show "\<exists>!g. g \<in> set ?gs \<and> b \<in> set (bindings g)"
    proof (rule ex1I[of _ "?mk (?f b)"])
      show "?mk (?f b) \<in> set ?gs \<and> b \<in> set (bindings (?mk (?f b)))"
        using b unfolding set_gs by simp
    next
      fix g assume "g \<in> set ?gs \<and> b \<in> set (bindings g)"
      then show "g = ?mk (?f b)" unfolding set_gs by auto
    qed
  qed
  have "mset ?gs = mset ?U" by (simp add: gs)
  then have "image_mset group (mset ?gs) = image_mset group (mset ?U)" by (rule arg_cong)
  then have "mset (map group ?gs) = mset (map group ?U)" by (simp only: mset_map)
  moreover have "map group ?U = first_seen (map ?f bs)" by (simp add: o_def)
  ultimately have "mset (map group ?gs) = mset (first_seen (map ?f bs))" by (simp only:)
  from mset_eq_imp_distinct_iff[OF this]
  have dist: "distinct (map group ?gs)"
    by (simp only: distinct_first_seen)
  have all: "mset (concat (map bindings ?gs)) = mset bs"
    by (rule mset_bindings_sorted)
  show ?thesis unfolding Let_def by (intro conjI one members dist all)
qed

text \<open>
  The example of C8, the test \<open>sorts life cycle observers by group\<close>: the order is
  \<open>['g1', 'g2']\<close>, the bindings are tagged \<open>g1\<close>, \<open>g2\<close>, \<open>g1\<close>, and the result is the
  group \<open>g1\<close> with the first and the third binding, then the group \<open>g2\<close>.
\<close>

theorem sortObserverBindingsByGroup_partition_witness:
  "givenObserverBinding ''my-observer-3'' (Some ''g1'')
     \<in> set (findObserverBindings CoreTags by_group_registry) \<and>
   (\<exists>!g. g \<in> set (sortObserverBindingsByGroup CoreTags by_group_registry
                      (findObserverBindings CoreTags by_group_registry)) \<and>
         givenObserverBinding ''my-observer-3'' (Some ''g1'') \<in> set (bindings g)) \<and>
   map group_keys (sortObserverBindingsByGroup CoreTags by_group_registry
                     (findObserverBindings CoreTags by_group_registry)) =
     [(''g1'', [''my-observer-1'', ''my-observer-3'']), (''g2'', [''my-observer-2''])]"
proof -
  have mem: "givenObserverBinding ''my-observer-3'' (Some ''g1'')
               \<in> set (findObserverBindings CoreTags by_group_registry)"
    by (simp add: fixture_defs grouping_defs Let_def)
  from sortObserverBindingsByGroup_partition [of CoreTags by_group_registry
      "findObserverBindings CoreTags by_group_registry"] mem
  have "\<exists>!g. g \<in> set (sortObserverBindingsByGroup CoreTags by_group_registry
                      (findObserverBindings CoreTags by_group_registry)) \<and>
         givenObserverBinding ''my-observer-3'' (Some ''g1'') \<in> set (bindings g)"
    unfolding Let_def by blast
  with mem by_group_groups show ?thesis
    by (simp add: getObserverGroupsByOrder_def)
qed


section \<open>Grouping on a store: proofs\<close>

lemma bindings_at_push:
  "bindings_at (push h a b) a' =
     (if a' = a \<and> a < length h then bindings_at h a @ [b] else bindings_at h a')"
  by (auto simp: push_def bindings_at_def)

lemma bindings_at_alloc: "bindings_at (h @ [BindingArray xs]) (length h) = xs"
  by (simp add: bindings_at_def)

lemma length_push: "length (push h a b) = length h"
  by (simp add: push_def)

lemma take_push: "n \<le> a \<Longrightarrow> take n (push h a b) = take n h"
  by (simp add: push_def)

lemma read_map_cong:
  "\<forall>a\<in>snd ` set m. bindings_at h' a = bindings_at h a \<Longrightarrow> read_map h' m = read_map h m"
  by (simp add: read_map_def)

lemma Map_get_read_map: "Map_get (read_map h m) g = map_option (bindings_at h) (Map_get m g)"
  by (induction m) (auto simp: read_map_def)

lemma Map_get_in_set: "Map_get m g = Some a \<Longrightarrow> (g, a) \<in> set m"
  by (induction m) (auto split: if_splits)

lemma read_map_Map_set:
  "read_map h (Map_set m g a) = Map_set (read_map h m) g (bindings_at h a)"
  by (induction m) (auto simp: read_map_def)

lemma Map_set_refs: "snd ` set (Map_set m g a) \<subseteq> insert a (snd ` set m)"
proof (induction m)
  case Nil
  show ?case by simp
next
  case (Cons p m)
  obtain g' a' where p: "p = (g', a')" by (cases p)
  show ?case
  proof (cases "g' = g")
    case True
    with p show ?thesis by auto
  next
    case False
    with p have "snd ` set (Map_set (p # m) g a) = insert a' (snd ` set (Map_set m g a))"
      by simp
    with Cons.IH p show ?thesis by auto
  qed
qed

lemma distinct_Map_set:
  "distinct (map snd m) \<Longrightarrow> a \<notin> snd ` set m \<Longrightarrow> distinct (map snd (Map_set m g a))"
proof (induction m)
  case Nil
  then show ?case by simp
next
  case (Cons p m)
  obtain g' a' where p: "p = (g', a')" by (cases p)
  show ?case
  proof (cases "g' = g")
    case True
    with Cons.prems p show ?thesis by auto
  next
    case False
    from Cons.prems p have "a' \<notin> snd ` set m" "a' \<noteq> a" by auto
    with Map_set_refs[of m g a] have "a' \<notin> snd ` set (Map_set m g a)" by blast
    with False p Cons show ?thesis by auto
  qed
qed

lemma read_map_push_existing:
  assumes "Map_get m g = Some a" and "distinct (map snd m)" and "a < length h"
  shows "read_map (push h a b) m = Map_set (read_map h m) g (bindings_at h a @ [b])"
  using assms
proof (induction m)
  case Nil
  then show ?case by simp
next
  case (Cons p m)
  obtain g' a' where p: "p = (g', a')" by (cases p)
  show ?case
  proof (cases "g' = g")
    case True
    with Cons.prems p have a': "a' = a" and "a \<notin> snd ` set m" by auto
    then have "read_map (push h a b) m = read_map h m"
      by (intro read_map_cong) (auto simp: bindings_at_push)
    with True a' p Cons.prems(3) show ?thesis
      by (simp add: read_map_def bindings_at_push)
  next
    case False
    with Cons.prems p have get: "Map_get m g = Some a" by simp
    from Map_get_in_set[OF this] have "a \<in> snd ` set m" by force
    with Cons.prems(2) p have "a' \<noteq> a" by auto
    moreover have "read_map (push h a b) m = Map_set (read_map h m) g (bindings_at h a @ [b])"
      using Cons.IH get Cons.prems(2,3) by simp
    ultimately show ?thesis using False p
      by (simp add: read_map_def bindings_at_push)
  qed
qed

lemma getObserverGroup_on_store_eq:
  "strings_at h r = groupsByOrder this \<Longrightarrow>
   getObserverGroup_on_store T h r b = getObserverGroup T this b"
  by (simp add: getObserverGroup_on_store_def getObserverGroup_def Let_def)

lemma strings_at_take:
  "take n h' = h \<Longrightarrow> r < length h \<Longrightarrow> strings_at h' r = strings_at h r"
proof -
  assume t: "take n h' = h" and r: "r < length h"
  then have "r < n" "r < length h'" by auto
  with t have "h ! r = h' ! r" by (metis nth_take)
  with r \<open>r < length h'\<close> show ?thesis by (simp add: strings_at_def)
qed

lemma bindings_at_take:
  "take n h' = h \<Longrightarrow> r < length h \<Longrightarrow> bindings_at h' r = bindings_at h r"
proof -
  assume t: "take n h' = h" and r: "r < length h"
  then have "r < n" "r < length h'" by auto
  with t have "h ! r = h' ! r" by (metis nth_take)
  with r \<open>r < length h'\<close> show ?thesis by (simp add: bindings_at_def)
qed

lemma step_on_store:
  assumes frame: "take (length h0) h = h0"
    and order: "r < length h0" "strings_at h0 r = groupsByOrder this"
    and refs: "\<forall>a\<in>snd ` set m. length h0 \<le> a \<and> a < length h"
    and dist: "distinct (map snd m)"
    and step: "addToGroupMap_on_store T r (m, h) b = (m', h')"
  shows "take (length h0) h' = h0 \<and>
         (\<forall>a\<in>snd ` set m'. length h0 \<le> a \<and> a < length h') \<and>
         distinct (map snd m') \<and>
         read_map h' m' = addToGroupMap (getObserverGroup T this) (read_map h m) b"
proof -
  let ?g = "getObserverGroup T this b"
  have len: "length h0 \<le> length h"
    using frame by (metis length_take min.cobounded1)
  have "strings_at h r = groupsByOrder this"
    using strings_at_take[OF frame order(1)] order(2) by simp
  then have g: "getObserverGroup_on_store T h r b = ?g"
    by (rule getObserverGroup_on_store_eq)
  show ?thesis
  proof (cases "Map_get m ?g")
    case None
    let ?a = "length h"
    let ?h1 = "h @ [BindingArray []]"
    from step None g have m': "m' = Map_set m ?g ?a" and h': "h' = push ?h1 ?a b"
      by (simp_all add: alloc_def Let_def)
    have fresh: "?a \<notin> snd ` set m" using refs by auto
    have 1: "take (length h0) h' = h0"
      unfolding h' using len frame by (simp add: take_push)
    have 2: "\<forall>a\<in>snd ` set m'. length h0 \<le> a \<and> a < length h'"
    proof
      fix a assume "a \<in> snd ` set m'"
      with Map_set_refs[of m ?g ?a] have "a = ?a \<or> a \<in> snd ` set m"
        unfolding m' by blast
      with refs len show "length h0 \<le> a \<and> a < length h'"
        unfolding h' by (auto simp: length_push)
    qed
    have 3: "distinct (map snd m')"
      unfolding m' using dist fresh by (rule distinct_Map_set)
    have same: "read_map h' m = read_map h m"
      unfolding h'
    proof (rule read_map_cong, rule ballI)
      fix a assume "a \<in> snd ` set m"
      with refs have "a < length h" by blast
      then show "bindings_at (push ?h1 ?a b) a = bindings_at h a"
        by (simp add: bindings_at_push) (simp add: bindings_at_def nth_append)
    qed
    have new: "bindings_at h' ?a = [b]"
      unfolding h' by (simp add: bindings_at_push) (simp add: bindings_at_def)
    have "read_map h' m' = Map_set (read_map h m) ?g [b]"
      unfolding m' by (simp add: read_map_Map_set same new)
    moreover have "Map_get (read_map h m) ?g = None"
      using None by (simp add: Map_get_read_map)
    ultimately have 4: "read_map h' m' = addToGroupMap (getObserverGroup T this) (read_map h m) b"
      by (simp add: addToGroupMap_def)
    show ?thesis by (intro conjI 1 2 3 4)
  next
    case (Some a)
    from step Some g have m': "m' = m" and h': "h' = push h a b"
      by (simp_all add: Let_def)
    from Map_get_in_set[OF Some] have "a \<in> snd ` set m" by force
    with refs have a: "length h0 \<le> a" "a < length h" by auto
    have 1: "take (length h0) h' = h0"
      unfolding h' using a frame by (simp add: take_push)
    have 2: "\<forall>a\<in>snd ` set m'. length h0 \<le> a \<and> a < length h'"
      unfolding m' h' using refs by (simp add: length_push)
    have 3: "distinct (map snd m')" unfolding m' by (rule dist)
    have "read_map h' m' = Map_set (read_map h m) ?g (bindings_at h a @ [b])"
      unfolding m' h' using Some dist a(2) by (rule read_map_push_existing)
    moreover have "Map_get (read_map h m) ?g = Some (bindings_at h a)"
      using Some by (simp add: Map_get_read_map)
    ultimately have 4: "read_map h' m' = addToGroupMap (getObserverGroup T this) (read_map h m) b"
      by (simp add: addToGroupMap_def)
    show ?thesis by (intro conjI 1 2 3 4)
  qed
qed

lemma loop_on_store:
  assumes "take (length h0) h = h0"
    and "r < length h0" "strings_at h0 r = groupsByOrder this"
    and "\<forall>a\<in>snd ` set m. length h0 \<le> a \<and> a < length h"
    and "distinct (map snd m)"
    and "foldl (addToGroupMap_on_store T r) (m, h) bs = (m', h')"
  shows "take (length h0) h' = h0 \<and>
         (\<forall>a\<in>snd ` set m'. length h0 \<le> a \<and> a < length h') \<and>
         distinct (map snd m') \<and>
         read_map h' m' = foldl (addToGroupMap (getObserverGroup T this)) (read_map h m) bs"
  using assms(1,4,5,6)
proof (induction bs arbitrary: m h)
  case Nil
  then show ?case by simp
next
  case (Cons b bs)
  obtain m1 h1 where s: "addToGroupMap_on_store T r (m, h) b = (m1, h1)"
    by (cases "addToGroupMap_on_store T r (m, h) b")
  from step_on_store[OF Cons.prems(1) assms(2,3) Cons.prems(2,3) s]
  have 1: "take (length h0) h1 = h0"
    and 2: "\<forall>a\<in>snd ` set m1. length h0 \<le> a \<and> a < length h1"
    and 3: "distinct (map snd m1)"
    and 4: "read_map h1 m1 = addToGroupMap (getObserverGroup T this) (read_map h m) b"
    by blast+
  from Cons.prems(4) s have "foldl (addToGroupMap_on_store T r) (m1, h1) bs = (m', h')"
    by simp
  from Cons.IH[OF 1 2 3 this] 4 show ?case by simp
qed

lemma insert_sorted_map:
  assumes "\<And>x y. c2 (F x) (F y) = c1 x y"
  shows "insert_sorted c2 (F x) (map F xs) = map F (insert_sorted c1 x xs)"
  by (induction xs) (auto simp: assms)

lemma Array_sort_map:
  assumes "\<And>x y. c2 (F x) (F y) = c1 x y"
  shows "Array_sort c2 (map F xs) = map F (Array_sort c1 xs)"
  by (induction xs) (auto simp: insert_sorted_map[of c2 F c1, OF assms])

lemma set_insert_sorted: "set (insert_sorted c x xs) = insert x (set xs)"
  by (induction xs) auto

lemma set_Array_sort: "set (Array_sort c xs) = set xs"
  by (induction xs) (auto simp: set_insert_sorted)

lemma sort_on_store:
  assumes order: "r < length h" "strings_at h r = groupsByOrder this"
    and run: "sortObserverBindingsByGroup_on_store T r bs_ref h = (res, h')"
  shows "take (length h) h' = h \<and>
         read_groups h' res = sortObserverBindingsByGroup T this (bindings_at h bs_ref) \<and>
         res < length h' \<and> (\<forall>a\<in>snd ` set (groups_at h' res). a < length h')"
proof -
  let ?bs = "bindings_at h bs_ref"
  obtain m h1 where loop: "foldl (addToGroupMap_on_store T r) ([], h) ?bs = (m, h1)"
    by (cases "foldl (addToGroupMap_on_store T r) ([], h) ?bs")
  have "take (length h) h = h" by simp
  from loop_on_store[OF this order _ _ loop]
  have frame1: "take (length h) h1 = h"
    and refs: "\<forall>a\<in>snd ` set m. length h \<le> a \<and> a < length h1"
    and map1: "read_map h1 m = foldl (addToGroupMap (getObserverGroup T this)) [] ?bs"
    by (simp_all add: read_map_def)
  have len: "length h \<le> length h1"
    using frame1 by (metis length_take min.cobounded1)
  let ?h2 = "h1 @ [GroupArray m]"
  let ?names = "strings_at ?h2 r"
  let ?c1 = "\<lambda>g1 g2. indexOf ?names (fst g1) - indexOf ?names (fst g2)"
  from run loop have res: "res = length h1"
    and h': "h' = h1 @ [GroupArray (Array_sort ?c1 (groups_at ?h2 (length h1)))]"
    by (auto simp: sortObserverBindingsByGroup_on_store_def alloc_def)
  have frame2: "take (length h) ?h2 = h" using frame1 len by simp
  have names: "?names = groupsByOrder this"
    using strings_at_take[OF frame2 order(1)] order(2) by simp
  have at: "groups_at ?h2 (length h1) = m" by (simp add: groups_at_def)
  have 1: "take (length h) h' = h"
    unfolding h' using frame1 len by simp
  have sorted_at: "groups_at h' res = Array_sort ?c1 m"
    unfolding h' res at by (simp add: groups_at_def)
  have same: "bindings_at h' a = bindings_at h1 a" if "a \<in> snd ` set m" for a
  proof -
    from that refs have "a < length h1" by blast
    then show ?thesis unfolding h' by (simp add: bindings_at_def nth_append)
  qed
  let ?F = "\<lambda>entry. \<lparr>group = fst entry, bindings = bindings_at h1 (snd entry)\<rparr>"
  let ?c2 = "\<lambda>g1 g2. indexOf (groupsByOrder this) (group g1) - indexOf (groupsByOrder this) (group g2)"
  have "read_groups h' res = map ?F (Array_sort ?c1 m)"
    unfolding read_groups_def sorted_at
    by (rule map_cong) (auto simp: set_Array_sort same)
  also have "\<dots> = Array_sort ?c2 (map ?F m)"
    by (rule Array_sort_map[symmetric]) (simp add: names)
  also have "map ?F m = map (\<lambda>entry. \<lparr>group = fst entry, bindings = snd entry\<rparr>) (read_map h1 m)"
    by (simp add: read_map_def)
  finally have 2: "read_groups h' res = sortObserverBindingsByGroup T this ?bs"
    by (simp add: sortObserverBindingsByGroup_def map1)
  have 3: "res < length h'" unfolding res h' by simp
  have 4: "\<forall>a\<in>snd ` set (groups_at h' res). a < length h'"
    unfolding sorted_at set_Array_sort using refs unfolding h' by auto
  show ?thesis by (intro conjI 1 2 3 4)
qed

lemma groups_on_store:
  assumes "r < length h" and "strings_at h r = groupsByOrder this"
    and "bindings_at h registry_ref = registry (ctx this)"
    and run: "getObserverGroupsByOrder_on_store T registry_ref r h = (res, h')"
  shows "take (length h) h' = h \<and>
         read_groups h' res = getObserverGroupsByOrder T this \<and>
         res < length h' \<and> (\<forall>a\<in>snd ` set (groups_at h' res). a < length h')"
proof -
  let ?found = "filter (is_observer_binding T) (bindings_at h registry_ref)"
  let ?h0 = "h @ [BindingArray ?found]"
  from run have run': "sortObserverBindingsByGroup_on_store T r (length h) ?h0 = (res, h')"
    by (simp add: getObserverGroupsByOrder_on_store_def alloc_def)
  have r: "r < length ?h0" using assms(1) by simp
  have "take (length h) ?h0 = h" by simp
  from strings_at_take[OF this assms(1)] assms(2)
  have names: "strings_at ?h0 r = groupsByOrder this" by simp
  from sort_on_store[OF r names run']
  have frame: "take (length ?h0) h' = ?h0"
    and result: "read_groups h' res = sortObserverBindingsByGroup T this (bindings_at ?h0 (length h))"
    and rest: "res < length h'" "\<forall>a\<in>snd ` set (groups_at h' res). a < length h'"
    by blast+
  from frame have "take (length h) (take (length ?h0) h') = take (length h) ?h0" by simp
  then have 1: "take (length h) h' = h" by (simp add: min_def)
  have "bindings_at ?h0 (length h) = ?found"
    by (rule bindings_at_alloc)
  also have "\<dots> = findObserverBindings T this"
    unfolding assms(3) by (simp add: findObserverBindings_def find_def)
  finally have "bindings_at ?h0 (length h) = findObserverBindings T this" .
  with result have 2: "read_groups h' res = getObserverGroupsByOrder T this"
    by (simp add: getObserverGroupsByOrder_def)
  from 1 2 rest show ?thesis by simp
qed

lemma read_groups_take:
  assumes "take (length h) h' = h" and "r < length h"
    and "\<forall>a\<in>snd ` set (groups_at h r). a < length h"
  shows "read_groups h' r = read_groups h r"
proof -
  from assms(1,2) have "r < length h'" "h' ! r = h ! r"
    by (metis length_take min_less_iff_conj, metis nth_take)
  with assms(2) have g: "groups_at h' r = groups_at h r" by (simp add: groups_at_def)
  show ?thesis
    unfolding read_groups_def g
    by (rule map_cong) (use assms(1,3) in \<open>auto simp: bindings_at_take\<close>)
qed

text \<open>
  C9: \<open>getObserverGroupsByOrder\<close> is called twice, the second time on the store that
  the first call has left. Each call leaves every array that existed before it as it was:
  the configured order, the bindings of the context and whatever else the store held;
  the pushes and the sort in place touch only arrays that the call has allocated. The
  groups that a call returns are those of \<open>getObserverGroupsByOrder\<close> on values, so
  the two calls return structurally equal groups, and the second call does not disturb
  the result of the first.
\<close>

theorem group_computation_is_pure:
  assumes "groupsByOrder_ref < length h" and "registry_ref < length h"
    and "strings_at h groupsByOrder_ref = groupsByOrder this"
    and "bindings_at h registry_ref = registry (ctx this)"
    and "getObserverGroupsByOrder_on_store T registry_ref groupsByOrder_ref h = (groups1, h1)"
    and "getObserverGroupsByOrder_on_store T registry_ref groupsByOrder_ref h1 = (groups2, h2)"
  shows "take (length h) h1 = h \<and> take (length h1) h2 = h1 \<and>
         read_groups h1 groups1 = getObserverGroupsByOrder T this \<and>
         read_groups h2 groups2 = read_groups h1 groups1 \<and>
         read_groups h2 groups1 = read_groups h1 groups1"
proof -
  from groups_on_store[OF assms(1,3,4,5)]
  have f1: "take (length h) h1 = h"
    and r1: "read_groups h1 groups1 = getObserverGroupsByOrder T this"
    and w1: "groups1 < length h1" "\<forall>a\<in>snd ` set (groups_at h1 groups1). a < length h1"
    by blast+
  have len: "length h \<le> length h1"
    using f1 by (metis length_take min.cobounded1)
  have o1: "groupsByOrder_ref < length h1" using assms(1) len by simp
  have n1: "strings_at h1 groupsByOrder_ref = groupsByOrder this"
    using strings_at_take[OF f1 assms(1)] assms(3) by simp
  have b1: "bindings_at h1 registry_ref = registry (ctx this)"
    using bindings_at_take[OF f1 assms(2)] assms(4) by simp
  from groups_on_store[OF o1 n1 b1 assms(6)]
  have f2: "take (length h1) h2 = h1"
    and r2: "read_groups h2 groups2 = getObserverGroupsByOrder T this"
    by blast+
  have same: "read_groups h2 groups1 = read_groups h1 groups1"
    using f2 w1 by (rule read_groups_take)
  from f1 f2 r1 r2 same show ?thesis by simp
qed

lemma by_group_store_refs:
  "strings_at by_group_store 0 = groupsByOrder by_group_registry"
  "bindings_at by_group_store 1 = registry (ctx by_group_registry)"
  by (simp_all add: by_group_store_def strings_at_def bindings_at_def fixture_defs)

theorem group_computation_is_pure_witness:
  "(case getObserverGroupsByOrder_on_store CoreTags 1 0 by_group_store of
      (groups1, h1) \<Rightarrow>
        (case getObserverGroupsByOrder_on_store CoreTags 1 0 h1 of
           (groups2, h2) \<Rightarrow>
             take (length by_group_store) h1 = by_group_store \<and>
             map group_keys (read_groups h1 groups1) =
               [(''g1'', [''my-observer-1'', ''my-observer-3'']), (''g2'', [''my-observer-2''])] \<and>
             read_groups h2 groups2 = read_groups h1 groups1))"
proof -
  obtain groups1 h1 where 1: "getObserverGroupsByOrder_on_store CoreTags 1 0 by_group_store = (groups1, h1)"
    by (cases "getObserverGroupsByOrder_on_store CoreTags 1 0 by_group_store")
  obtain groups2 h2 where 2: "getObserverGroupsByOrder_on_store CoreTags 1 0 h1 = (groups2, h2)"
    by (cases "getObserverGroupsByOrder_on_store CoreTags 1 0 h1")
  have l: "0 < length by_group_store" "1 < length by_group_store"
    by (simp_all add: by_group_store_def)
  from group_computation_is_pure [OF l by_group_store_refs 1 2] by_group_groups
  have "take (length by_group_store) h1 = by_group_store \<and>
        map group_keys (read_groups h1 groups1) =
          [(''g1'', [''my-observer-1'', ''my-observer-3'']), (''g2'', [''my-observer-2''])] \<and>
        read_groups h2 groups2 = read_groups h1 groups1"
    by simp
  then show ?thesis by (simp only: 1 2 prod.case)
qed

section \<open>Notification: proofs\<close>

subsection \<open>The two loops\<close>

lemma for_await_Cons_failed:
  "failure (f x s) \<noteq> None \<Longrightarrow> for_await f (x # xs) s = f x s"
  by (cases "f x s") (auto)

lemma for_await_Cons_ok:
  "failure (f x s) = None \<Longrightarrow>
   for_await f (x # xs) s =
     (failure (for_await f xs (state (f x s))), state (for_await f xs (state (f x s))),
      calls (f x s) @ calls (for_await f xs (state (f x s))))"
  by (cases "f x s"; cases "for_await f xs (state (f x s))") auto

lemma append_eq_split:
  "l @ m = xs @ c # ys \<Longrightarrow> c \<notin> set l \<Longrightarrow> \<exists>zs. xs = l @ zs \<and> m = zs @ c # ys"
proof (induction l arbitrary: xs)
  case Nil
  then show ?case by simp
next
  case (Cons a l)
  then show ?case by (cases xs) auto
qed

lemma all_calls_for_await:
  assumes "\<And>x s. x \<in> set xs \<Longrightarrow> \<forall>c\<in>set (calls (f x s)). P c"
  shows "\<forall>c\<in>set (calls (for_await f xs s)). P c"
  using assms
proof (induction xs arbitrary: s)
  case Nil
  show ?case by simp
next
  case (Cons x xs)
  have hx: "\<forall>c\<in>set (calls (f x s)). P c" by (rule Cons.prems) simp
  show ?case
  proof (cases "failure (f x s)")
    case (Some e)
    with hx show ?thesis by (simp add: for_await_Cons_failed del: for_await.simps)
  next
    case None
    have "\<forall>c\<in>set (calls (for_await f xs (state (f x s)))). P c"
      by (rule Cons.IH) (rule Cons.prems, simp)
    with None hx show ?thesis
      by (auto simp: for_await_Cons_ok simp del: for_await.simps)
  qed
qed

lemma for_await_ok_members:
  assumes "failure (for_await f xs s) = None" and "x \<in> set xs"
  shows "\<exists>s'. failure (f x s') = None \<and> set (calls (f x s')) \<subseteq> set (calls (for_await f xs s))"
  using assms
proof (induction xs arbitrary: s)
  case Nil
  then show ?case by simp
next
  case (Cons y ys)
  have ok: "failure (f y s) = None"
  proof (rule ccontr)
    assume "failure (f y s) \<noteq> None"
    then have "for_await f (y # ys) s = f y s" by (rule for_await_Cons_failed)
    with Cons.prems(1) \<open>failure (f y s) \<noteq> None\<close> show False by simp
  qed
  let ?r1 = "for_await f ys (state (f y s))"
  have eq: "for_await f (y # ys) s = (failure ?r1, state ?r1, calls (f y s) @ calls ?r1)"
    using ok by (rule for_await_Cons_ok)
  show ?case
  proof (cases "x = y")
    case True
    with ok show ?thesis unfolding eq by auto
  next
    case False
    with Cons.prems(2) have "x \<in> set ys" by simp
    moreover from Cons.prems(1) have "failure ?r1 = None" unfolding eq by simp
    ultimately obtain s' where "failure (f x s') = None" "set (calls (f x s')) \<subseteq> set (calls ?r1)"
      using Cons.IH by blast
    then show ?thesis unfolding eq by auto
  qed
qed

lemma count_for_await:
  assumes "\<And>x s. x \<in> set xs \<Longrightarrow>
             length (filter P (calls (f x s))) \<le> n x \<and>
             (failure (f x s) = None \<longrightarrow> length (filter P (calls (f x s))) = n x)"
  shows "length (filter P (calls (for_await f xs s))) \<le> sum_list (map n xs) \<and>
         (failure (for_await f xs s) = None \<longrightarrow>
            length (filter P (calls (for_await f xs s))) = sum_list (map n xs))"
  using assms
proof (induction xs arbitrary: s)
  case Nil
  show ?case by simp
next
  case (Cons x xs)
  have hx: "length (filter P (calls (f x s))) \<le> n x \<and>
            (failure (f x s) = None \<longrightarrow> length (filter P (calls (f x s))) = n x)"
    by (rule Cons.prems) simp
  show ?case
  proof (cases "failure (f x s)")
    case (Some e)
    with hx show ?thesis by (simp add: for_await_Cons_failed del: for_await.simps)
  next
    case None
    let ?r1 = "for_await f xs (state (f x s))"
    have IH: "length (filter P (calls ?r1)) \<le> sum_list (map n xs) \<and>
              (failure ?r1 = None \<longrightarrow> length (filter P (calls ?r1)) = sum_list (map n xs))"
      by (rule Cons.IH) (rule Cons.prems, simp)
    from None hx IH show ?thesis
      by (simp add: for_await_Cons_ok del: for_await.simps)
  qed
qed

lemma Promise_all_Cons:
  "Promise_all f (x # xs) s =
     ((case failure (f x s) of
         None \<Rightarrow> failure (Promise_all f xs (state (f x s)))
       | Some e \<Rightarrow> Some e),
      state (Promise_all f xs (state (f x s))),
      calls (f x s) @ calls (Promise_all f xs (state (f x s))))"
  by (cases "f x s"; cases "Promise_all f xs (state (f x s))") (auto split: option.splits)

lemma all_calls_Promise_all:
  assumes "\<And>x s. x \<in> set xs \<Longrightarrow> \<forall>c\<in>set (calls (f x s)). P c"
  shows "\<forall>c\<in>set (calls (Promise_all f xs s)). P c"
  using assms
proof (induction xs arbitrary: s)
  case Nil
  show ?case by simp
next
  case (Cons x xs)
  have hx: "\<forall>c\<in>set (calls (f x s)). P c" by (rule Cons.prems) simp
  have "\<forall>c\<in>set (calls (Promise_all f xs (state (f x s)))). P c"
    by (rule Cons.IH) (rule Cons.prems, simp)
  with hx show ?case
    by (auto simp: Promise_all_Cons simp del: Promise_all.simps)
qed

lemma Promise_all_ok_members:
  assumes "failure (Promise_all f xs s) = None" and "x \<in> set xs"
  shows "\<exists>s'. failure (f x s') = None \<and> set (calls (f x s')) \<subseteq> set (calls (Promise_all f xs s))"
  using assms
proof (induction xs arbitrary: s)
  case Nil
  then show ?case by simp
next
  case (Cons y ys)
  let ?r1 = "Promise_all f ys (state (f y s))"
  from Cons.prems(1) have ok: "failure (f y s) = None" and ok1: "failure ?r1 = None"
    by (auto simp: Promise_all_Cons simp del: Promise_all.simps split: option.splits)
  have c: "calls (Promise_all f (y # ys) s) = calls (f y s) @ calls ?r1"
    by (simp add: Promise_all_Cons del: Promise_all.simps)
  show ?case
  proof (cases "x = y")
    case True
    with ok show ?thesis unfolding c by auto
  next
    case False
    with Cons.prems(2) have "x \<in> set ys" by simp
    with ok1 obtain s' where "failure (f x s') = None" "set (calls (f x s')) \<subseteq> set (calls ?r1)"
      using Cons.IH by blast
    then show ?thesis unfolding c by auto
  qed
qed

lemma count_Promise_all:
  assumes "\<And>x s. x \<in> set xs \<Longrightarrow> length (filter P (calls (f x s))) = n x"
  shows "length (filter P (calls (Promise_all f xs s))) = sum_list (map n xs)"
  using assms
proof (induction xs arbitrary: s)
  case Nil
  show ?case by simp
next
  case (Cons x xs)
  have "length (filter P (calls (f x s))) = n x" by (rule Cons.prems) simp
  moreover have "length (filter P (calls (Promise_all f xs (state (f x s))))) = sum_list (map n xs)"
    by (rule Cons.IH) (rule Cons.prems, simp)
  ultimately show ?case
    by (simp add: Promise_all_Cons del: Promise_all.simps)
qed


lemma filter_calls_for_await:
  assumes "\<And>x s'. x \<in> set xs \<Longrightarrow> failure (f x s') = None \<Longrightarrow> filter P (calls (f x s')) = F x"
    and "failure (for_await f xs s) = None"
  shows "filter P (calls (for_await f xs s)) = concat (map F xs)"
  using assms
proof (induction xs arbitrary: s)
  case Nil
  show ?case by simp
next
  case (Cons x xs)
  have ok: "failure (f x s) = None"
  proof (rule ccontr)
    assume "failure (f x s) \<noteq> None"
    then have "for_await f (x # xs) s = f x s" by (rule for_await_Cons_failed)
    with Cons.prems(2) \<open>failure (f x s) \<noteq> None\<close> show False by simp
  qed
  let ?r1 = "for_await f xs (state (f x s))"
  have eq: "for_await f (x # xs) s = (failure ?r1, state ?r1, calls (f x s) @ calls ?r1)"
    using ok by (rule for_await_Cons_ok)
  from Cons.prems(2) have ok1: "failure ?r1 = None" unfolding eq by simp
  have "filter P (calls (f x s)) = F x" using ok by (intro Cons.prems(1)) simp_all
  moreover have "filter P (calls ?r1) = concat (map F xs)"
    using ok1 by (intro Cons.IH Cons.prems(1)) simp_all
  ultimately show ?case unfolding eq by simp
qed

lemma filter_calls_Promise_all:
  assumes "\<And>x s'. x \<in> set xs \<Longrightarrow> failure (f x s') = None \<Longrightarrow> filter P (calls (f x s')) = F x"
    and "failure (Promise_all f xs s) = None"
  shows "filter P (calls (Promise_all f xs s)) = concat (map F xs)"
  using assms
proof (induction xs arbitrary: s)
  case Nil
  show ?case by simp
next
  case (Cons x xs)
  let ?r1 = "Promise_all f xs (state (f x s))"
  from Cons.prems(2) have ok: "failure (f x s) = None" and ok1: "failure ?r1 = None"
    by (auto simp: Promise_all_Cons simp del: Promise_all.simps split: option.splits)
  have "filter P (calls (f x s)) = F x" using ok by (intro Cons.prems(1)) simp_all
  moreover have "filter P (calls ?r1) = concat (map F xs)"
    using ok1 by (intro Cons.IH Cons.prems(1)) simp_all
  ultimately show ?case by (simp add: Promise_all_Cons del: Promise_all.simps)
qed

subsection \<open>Failures in a run\<close>

lemma invokeObserver_cases:
  "(observer event = None \<and> invokeObserver k observer event s = (None, s, [])) \<or>
   (\<exists>method r s'. observer event = Some method \<and> method s = (r, s') \<and>
      invokeObserver k observer event s = (r, s', [Invoke k event r]))"
  by (cases "observer event") (auto simp: invokeObserver_def split: prod.split)

lemma resume_cases:
  "(\<exists>e. get (ctx this) (key b) = Inl e \<and> ctx_get_call this b = Get (key b) (Some e) \<and>
        resume this event b s = (Some e, s, [])) \<or>
   (ctx_get_call this b = Get (key b) None \<and>
      (resume this event b s = (None, s, []) \<or>
       (\<exists>r s'. resume this event b s = (r, s', [Invoke (key b) event r]))))"
proof (cases "get (ctx this) (key b)")
  case (Inl e)
  then show ?thesis by (simp add: resume_def ctx_get_call_def)
next
  case (Inr observer)
  with invokeObserver_cases[of observer event "key b" s] show ?thesis
    by (auto simp: resume_def ctx_get_call_def)
qed

lemma calls_resume:
  "\<forall>c\<in>set (calls (resume this ev b s)). call_key c = key b \<and> invoked c = Some ev"
  using resume_cases[of this b ev s] by auto

lemma calls_notifyObserver:
  "\<forall>c\<in>set (calls (notifyObserver this ev b s)).
     call_key c = key b \<and> (invoked c = None \<or> invoked c = Some ev)"
  using resume_cases[of this b ev s] by (auto simp: notifyObserver_def)

lemma invoked_resume:
  assumes "failure (resume this ev b s) = None"
    and "get (ctx this) (key b) = Inr obs" and "obs ev = Some h"
  shows "Invoke (key b) ev None \<in> set (calls (resume this ev b s))"
  using assms by (cases "h s") (auto simp: resume_def invokeObserver_def)

lemma invoked_notifyObserver:
  assumes "failure (notifyObserver this ev b s) = None"
    and "get (ctx this) (key b) = Inr obs" and "obs ev = Some h"
  shows "Invoke (key b) ev None \<in> set (calls (notifyObserver this ev b s))"
proof -
  from assms(1) have "failure (resume this ev b s) = None"
    by (cases "resume this ev b s") (simp add: notifyObserver_def)
  from invoked_resume[OF this assms(2,3)] show ?thesis
    by (cases "resume this ev b s") (simp add: notifyObserver_def)
qed





lemma Promise_all_resume:
  "(\<forall>c\<in>set (calls (Promise_all (resume this ev) xs s)). \<exists>k r. c = Invoke k ev r) \<and>
   (failure (Promise_all (resume this ev) xs s) = None \<longrightarrow>
      (\<forall>x\<in>set xs. outcome (ctx_get_call this x) = None) \<and>
      (\<forall>c\<in>set (calls (Promise_all (resume this ev) xs s)). outcome c = None)) \<and>
   (\<forall>e. failure (Promise_all (resume this ev) xs s) = Some e \<longrightarrow>
      (\<exists>c\<in>set (calls (Promise_all (resume this ev) xs s)). outcome c = Some e) \<or>
      (\<exists>x\<in>set xs. outcome (ctx_get_call this x) = Some e)) \<and>
   ((\<forall>x\<in>set xs. outcome (ctx_get_call this x) = None) \<longrightarrow>
      (\<forall>zs k ev' e ys.
         calls (Promise_all (resume this ev) xs s) = zs @ Invoke k ev' (Some e) # ys \<longrightarrow>
         (\<forall>c\<in>set zs. outcome c = None) \<longrightarrow>
         failure (Promise_all (resume this ev) xs s) = Some e))"
proof (induction xs arbitrary: s)
  case Nil
  show ?case by simp
next
  case (Cons x xs)
  let ?rx = "resume this ev x s"
  let ?r1 = "Promise_all (resume this ev) xs (state ?rx)"
  let ?r = "Promise_all (resume this ev) (x # xs) s"
  have f: "failure ?r = (case failure ?rx of None \<Rightarrow> failure ?r1 | Some e \<Rightarrow> Some e)"
    and c: "calls ?r = calls ?rx @ calls ?r1"
    by (simp_all add: Promise_all_Cons del: Promise_all.simps)
  note IH = Cons.IH[of "state ?rx"]
  note IH1 = IH[THEN conjunct1]
  note IH2 = IH[THEN conjunct2, THEN conjunct1]
  note IH3 = IH[THEN conjunct2, THEN conjunct2, THEN conjunct1]
  note IH4 = IH[THEN conjunct2, THEN conjunct2, THEN conjunct2]
  from resume_cases[of this x ev s]
  consider (unresolved) e where "outcome (ctx_get_call this x) = Some e"
      "failure ?rx = Some e" "calls ?rx = []"
    | (no_method) "outcome (ctx_get_call this x) = None" "failure ?rx = None" "calls ?rx = []"
    | (invoked) r where "outcome (ctx_get_call this x) = None" "failure ?rx = r"
      "calls ?rx = [Invoke (key x) ev r]"
    by auto
  then show ?case
  proof cases
    case unresolved
    have 1: "\<forall>c\<in>set (calls ?r). \<exists>k r. c = Invoke k ev r"
      using IH1 unresolved(3) unfolding c by simp
    have 2: "failure ?r = None \<longrightarrow>
        (\<forall>x\<in>set (x # xs). outcome (ctx_get_call this x) = None) \<and>
        (\<forall>c\<in>set (calls ?r). outcome c = None)"
      using unresolved unfolding f by simp
    have 3: "\<forall>e. failure ?r = Some e \<longrightarrow>
        (\<exists>c\<in>set (calls ?r). outcome c = Some e) \<or>
        (\<exists>x\<in>set (x # xs). outcome (ctx_get_call this x) = Some e)"
      using unresolved unfolding f by simp
    have 4: "(\<forall>x\<in>set (x # xs). outcome (ctx_get_call this x) = None) \<longrightarrow>
        (\<forall>zs k ev' e ys. calls ?r = zs @ Invoke k ev' (Some e) # ys \<longrightarrow>
           (\<forall>c\<in>set zs. outcome c = None) \<longrightarrow> failure ?r = Some e)"
      using unresolved(1) by simp
    show ?thesis by (intro conjI 1 2 3 4)
  next
    case no_method
    have fr: "failure ?r = failure ?r1" and cr: "calls ?r = calls ?r1"
      using no_method unfolding f c by simp_all
    have 1: "\<forall>c\<in>set (calls ?r). \<exists>k r. c = Invoke k ev r"
      using IH1 unfolding cr .
    have 2: "failure ?r = None \<longrightarrow>
        (\<forall>x\<in>set (x # xs). outcome (ctx_get_call this x) = None) \<and>
        (\<forall>c\<in>set (calls ?r). outcome c = None)"
      using IH2 no_method(1) unfolding fr cr by simp
    have 3: "\<forall>e. failure ?r = Some e \<longrightarrow>
        (\<exists>c\<in>set (calls ?r). outcome c = Some e) \<or>
        (\<exists>x\<in>set (x # xs). outcome (ctx_get_call this x) = Some e)"
      using IH3 unfolding fr cr by auto
    have 4: "(\<forall>x\<in>set (x # xs). outcome (ctx_get_call this x) = None) \<longrightarrow>
        (\<forall>zs k ev' e ys. calls ?r = zs @ Invoke k ev' (Some e) # ys \<longrightarrow>
           (\<forall>c\<in>set zs. outcome c = None) \<longrightarrow> failure ?r = Some e)"
      using IH4 unfolding fr cr by simp
    show ?thesis by (intro conjI 1 2 3 4)
  next
    case invoked
    have 1: "\<forall>c\<in>set (calls ?r). \<exists>k r. c = Invoke k ev r"
      using IH1 invoked(3) unfolding c by simp
    have 2: "failure ?r = None \<longrightarrow>
        (\<forall>x\<in>set (x # xs). outcome (ctx_get_call this x) = None) \<and>
        (\<forall>c\<in>set (calls ?r). outcome c = None)"
      using IH2 invoked unfolding f c by (auto split: option.splits)
    have 3: "\<forall>e. failure ?r = Some e \<longrightarrow>
        (\<exists>c\<in>set (calls ?r). outcome c = Some e) \<or>
        (\<exists>x\<in>set (x # xs). outcome (ctx_get_call this x) = Some e)"
      using IH3 invoked unfolding f c by (auto split: option.splits)
    have 4: "(\<forall>x\<in>set (x # xs). outcome (ctx_get_call this x) = None) \<longrightarrow>
        (\<forall>zs k ev' e ys. calls ?r = zs @ Invoke k ev' (Some e) # ys \<longrightarrow>
           (\<forall>c\<in>set zs. outcome c = None) \<longrightarrow> failure ?r = Some e)"
    proof (intro impI allI)
      fix zs k ev' e ys
      assume gets: "\<forall>x\<in>set (x # xs). outcome (ctx_get_call this x) = None"
        and split: "calls ?r = zs @ Invoke k ev' (Some e) # ys"
        and before: "\<forall>c\<in>set zs. outcome c = None"
      from gets have gets': "\<forall>x\<in>set xs. outcome (ctx_get_call this x) = None" by simp
      from IH4[THEN mp, OF gets']
      have rec: "\<And>zs' . calls ?r1 = zs' @ Invoke k ev' (Some e) # ys \<Longrightarrow>
           (\<forall>c\<in>set zs'. outcome c = None) \<Longrightarrow> failure ?r1 = Some e"
        by blast
      show "failure ?r = Some e"
      proof (cases zs)
        case Nil
        with split invoked(3) have "r = Some e" unfolding c by simp
        with invoked(2) show ?thesis unfolding f by simp
      next
        case (Cons z zs')
        with split invoked(3) have z: "z = Invoke (key x) ev r"
          and rest: "calls ?r1 = zs' @ Invoke k ev' (Some e) # ys"
          unfolding c by simp_all
        from before Cons z have "r = None" by simp
        moreover from before Cons have "\<forall>c\<in>set zs'. outcome c = None" by simp
        from rec[OF rest this] have "failure ?r1 = Some e" .
        ultimately show ?thesis using invoked(2) unfolding f by simp
      qed
    qed
    show ?thesis by (intro conjI 1 2 3 4)
  qed
qed




subsection \<open>The calls of a run\<close>

lemma calls_notifyObserverGroup:
  assumes "set (sched ev (bindings g)) \<subseteq> set (bindings g)"
  shows "\<forall>c\<in>set (calls (notifyObserverGroup sched this g ev s)).
           call_key c \<in> key ` set (bindings g) \<and> (invoked c = None \<or> invoked c = Some ev)"
proof (cases "parallel (options this) = Some True")
  case False
  have "\<forall>c\<in>set (calls (for_await (notifyObserver this ev) (bindings g) s)).
           call_key c \<in> key ` set (bindings g) \<and> (invoked c = None \<or> invoked c = Some ev)"
  proof (rule all_calls_for_await)
    fix x s' assume x: "x \<in> set (bindings g)"
    with calls_notifyObserver[of this ev x s']
    show "\<forall>c\<in>set (calls (notifyObserver this ev x s')).
            call_key c \<in> key ` set (bindings g) \<and> (invoked c = None \<or> invoked c = Some ev)"
      by blast
  qed
  with False show ?thesis by (simp add: notifyObserverGroup_def)
next
  case True
  let ?r = "Promise_all (resume this ev) (sched ev (bindings g)) s"
  have eq: "notifyObserverGroup sched this g ev s =
              (failure ?r, state ?r, map (ctx_get_call this) (bindings g) @ calls ?r)"
    using True by (cases ?r) (simp add: notifyObserverGroup_def)
  have 1: "\<forall>c\<in>set (calls ?r).
           call_key c \<in> key ` set (bindings g) \<and> (invoked c = None \<or> invoked c = Some ev)"
  proof (rule all_calls_Promise_all)
    fix x s' assume "x \<in> set (sched ev (bindings g))"
    with assms have x: "x \<in> set (bindings g)" by blast
    with calls_resume[of this ev x s']
    show "\<forall>c\<in>set (calls (resume this ev x s')).
            call_key c \<in> key ` set (bindings g) \<and> (invoked c = None \<or> invoked c = Some ev)"
      by blast
  qed
  have 2: "\<forall>c\<in>set (map (ctx_get_call this) (bindings g)).
           call_key c \<in> key ` set (bindings g) \<and> (invoked c = None \<or> invoked c = Some ev)"
    by (simp add: ctx_get_call_def)
  from 1 2 show ?thesis unfolding eq by auto
qed

lemma calls_notifyGroups:
  assumes "\<And>ev bs. set (sched ev bs) = set bs"
  shows "\<forall>c\<in>set (calls (notifyGroups sched this events groups s)).
           call_key c \<in> key ` set (concat (map bindings groups)) \<and>
           (invoked c = None \<or> invoked c \<in> Some ` set events)"
  unfolding notifyGroups_def
proof (rule all_calls_for_await)
  fix ev s' assume ev: "ev \<in> set events"
  have "\<forall>c\<in>set (calls (for_await (\<lambda>g. notifyObserverGroup sched this g ev) groups s')).
           call_key c \<in> key ` set (concat (map bindings groups)) \<and>
           (invoked c = None \<or> invoked c = Some ev)"
  proof (rule all_calls_for_await)
    fix g s'' assume g: "g \<in> set groups"
    have "set (sched ev (bindings g)) \<subseteq> set (bindings g)" by (simp add: assms)
    note G = calls_notifyObserverGroup[of sched ev g this s'', OF this]
    have "key ` set (bindings g) \<subseteq> key ` set (concat (map bindings groups))"
      using g by auto
    with G show "\<forall>c\<in>set (calls (notifyObserverGroup sched this g ev s'')).
            call_key c \<in> key ` set (concat (map bindings groups)) \<and>
            (invoked c = None \<or> invoked c = Some ev)"
      by blast
  qed
  with ev show "\<forall>c\<in>set (calls (for_await (\<lambda>g. notifyObserverGroup sched this g ev) groups s')).
           call_key c \<in> key ` set (concat (map bindings groups)) \<and>
           (invoked c = None \<or> invoked c \<in> Some ` set events)"
    by blast
qed

lemma set_bindings_groups:
  "set (concat (map bindings (getObserverGroupsByOrder T this))) = set (findObserverBindings T this)"
  using mset_bindings_groups[of T this] by (rule mset_eq_setD)

lemma set_bindings_groups_rev:
  "set (concat (map bindings (rev (getObserverGroupsByOrder T this)))) = set (findObserverBindings T this)"
  using mset_bindings_groups_rev[of T this] by (rule mset_eq_setD)


lemma count_notifyObserver:
  "length (filter (resolves k) (calls (notifyObserver this ev b s)))
     = (if key b = k then 1 else 0)"
  using resume_cases[of this b ev s]
  by (auto simp: notifyObserver_def)

lemma sum_list_count:
  "sum_list (map (\<lambda>x. if P x then 1 else 0) xs) = length (filter P xs)"
  by (induction xs) auto

lemma sum_list_count_concat:
  "sum_list (map (\<lambda>g. length (filter P (f g))) gs) = length (filter P (concat (map f gs)))"
  by (induction gs) auto

lemma count_gets:
  "filter (resolves k \<circ> ctx_get_call this) bs = filter (\<lambda>b. key b = k) bs"
  by (induction bs) (auto simp: ctx_get_call_def)

lemma count_notifyObserverGroup:
  "length (filter (resolves k) (calls (notifyObserverGroup sched this g ev s)))
     \<le> length (filter (\<lambda>b. key b = k) (bindings g)) \<and>
   (failure (notifyObserverGroup sched this g ev s) = None \<longrightarrow>
      length (filter (resolves k) (calls (notifyObserverGroup sched this g ev s)))
        = length (filter (\<lambda>b. key b = k) (bindings g)))"
proof (cases "parallel (options this) = Some True")
  case False
  have "length (filter (resolves k) (calls (for_await (notifyObserver this ev) (bindings g) s)))
          \<le> sum_list (map (\<lambda>b. if key b = k then 1 else 0) (bindings g)) \<and>
        (failure (for_await (notifyObserver this ev) (bindings g) s) = None \<longrightarrow>
           length (filter (resolves k) (calls (for_await (notifyObserver this ev) (bindings g) s)))
             = sum_list (map (\<lambda>b. if key b = k then 1 else 0) (bindings g)))"
    by (rule count_for_await) (simp add: count_notifyObserver)
  then have "length (filter (resolves k) (calls (for_await (notifyObserver this ev) (bindings g) s)))
          \<le> length (filter (\<lambda>b. key b = k) (bindings g)) \<and>
        (failure (for_await (notifyObserver this ev) (bindings g) s) = None \<longrightarrow>
           length (filter (resolves k) (calls (for_await (notifyObserver this ev) (bindings g) s)))
             = length (filter (\<lambda>b. key b = k) (bindings g)))"
    unfolding sum_list_count .
  with False show ?thesis
    by (simp add: notifyObserverGroup_def)
next
  case True
  let ?r = "Promise_all (resume this ev) (sched ev (bindings g)) s"
  have eq: "notifyObserverGroup sched this g ev s =
              (failure ?r, state ?r, map (ctx_get_call this) (bindings g) @ calls ?r)"
    using True by (cases ?r) (simp add: notifyObserverGroup_def)
  from Promise_all_resume[of this ev "sched ev (bindings g)" s]
  have "\<forall>c\<in>set (calls ?r). \<not> resolves k c" by fastforce
  then have "filter (resolves k) (calls ?r) = []" by (simp add: filter_empty_conv)
  then show ?thesis unfolding eq by (simp add: count_gets)
qed

lemma count_notifyGroups:
  "length (filter (resolves k) (calls (notifyGroups sched this events groups s)))
     \<le> length events * length (filter (\<lambda>b. key b = k) (concat (map bindings groups))) \<and>
   (failure (notifyGroups sched this events groups s) = None \<longrightarrow>
      length (filter (resolves k) (calls (notifyGroups sched this events groups s)))
        = length events * length (filter (\<lambda>b. key b = k) (concat (map bindings groups))))"
proof -
  let ?N = "length (filter (\<lambda>b. key b = k) (concat (map bindings groups)))"
  let ?phase = "\<lambda>event. for_await (\<lambda>g. notifyObserverGroup sched this g event) groups"
  have phase: "length (filter (resolves k) (calls (?phase ev s'))) \<le> ?N \<and>
        (failure (?phase ev s') = None \<longrightarrow> length (filter (resolves k) (calls (?phase ev s'))) = ?N)"
    for ev s'
  proof -
    have "length (filter (resolves k) (calls (?phase ev s')))
            \<le> sum_list (map (\<lambda>g. length (filter (\<lambda>b. key b = k) (bindings g))) groups) \<and>
          (failure (?phase ev s') = None \<longrightarrow>
             length (filter (resolves k) (calls (?phase ev s')))
               = sum_list (map (\<lambda>g. length (filter (\<lambda>b. key b = k) (bindings g))) groups))"
      by (rule count_for_await) (rule count_notifyObserverGroup)
    then show ?thesis unfolding sum_list_count_concat .
  qed
  have "sum_list (map (\<lambda>ev. ?N) events) = length events * ?N"
    by (induction events) auto
  moreover have "length (filter (resolves k) (calls (for_await ?phase events s)))
            \<le> sum_list (map (\<lambda>ev. ?N) events) \<and>
          (failure (for_await ?phase events s) = None \<longrightarrow>
             length (filter (resolves k) (calls (for_await ?phase events s)))
               = sum_list (map (\<lambda>ev. ?N) events))"
    by (rule count_for_await) (rule phase)
  ultimately show ?thesis unfolding notifyGroups_def by simp
qed

lemma count_groups:
  "mset xs = mset ys \<Longrightarrow> length (filter P xs) = length (filter P ys)"
proof -
  assume "mset xs = mset ys"
  then have "mset (filter P xs) = mset (filter P ys)" by (simp only: mset_filter)
  then show ?thesis by (rule mset_eq_length)
qed

lemma complete_notifyObserverGroup:
  assumes "failure (notifyObserverGroup sched this g ev s) = None"
    and "set (bindings g) \<subseteq> set (sched ev (bindings g))"
    and "b \<in> set (bindings g)"
    and "get (ctx this) (key b) = Inr obs" and "obs ev = Some h"
  shows "Invoke (key b) ev None \<in> set (calls (notifyObserverGroup sched this g ev s))"
proof (cases "parallel (options this) = Some True")
  case False
  then have eq: "notifyObserverGroup sched this g ev s
                   = for_await (notifyObserver this ev) (bindings g) s"
    by (simp add: notifyObserverGroup_def)
  from for_await_ok_members[of "notifyObserver this ev" "bindings g" s b] assms(1,3)
  obtain s' where s': "failure (notifyObserver this ev b s') = None"
      "set (calls (notifyObserver this ev b s'))
         \<subseteq> set (calls (for_await (notifyObserver this ev) (bindings g) s))"
    unfolding eq by blast
  from invoked_notifyObserver[OF s'(1) assms(4,5)] s'(2) show ?thesis
    unfolding eq by blast
next
  case True
  let ?r = "Promise_all (resume this ev) (sched ev (bindings g)) s"
  have eq: "notifyObserverGroup sched this g ev s =
              (failure ?r, state ?r, map (ctx_get_call this) (bindings g) @ calls ?r)"
    using True by (cases ?r) (simp add: notifyObserverGroup_def)
  from assms(1) have ok: "failure ?r = None" unfolding eq by simp
  from assms(2,3) have "b \<in> set (sched ev (bindings g))" by blast
  from Promise_all_ok_members[OF ok this]
  obtain s' where s': "failure (resume this ev b s') = None"
      "set (calls (resume this ev b s')) \<subseteq> set (calls ?r)"
    by blast
  from invoked_resume[OF s'(1) assms(4,5)] s'(2) show ?thesis
    unfolding eq by auto
qed

lemma complete_phase:
  assumes "failure (for_await (\<lambda>g. notifyObserverGroup sched this g ev) groups s) = None"
    and "\<And>bs. set (sched ev bs) = set bs"
    and "b \<in> set (concat (map bindings groups))"
    and "get (ctx this) (key b) = Inr obs" and "obs ev = Some h"
  shows "Invoke (key b) ev None
           \<in> set (calls (for_await (\<lambda>g. notifyObserverGroup sched this g ev) groups s))"
proof -
  from assms(3) obtain g :: LifeCycleObserverGroup
    where g: "g \<in> set groups" "b \<in> set (bindings g)" by auto
  from for_await_ok_members[OF assms(1) g(1)]
  obtain s' where s': "failure (notifyObserverGroup sched this g ev s') = None"
      "set (calls (notifyObserverGroup sched this g ev s'))
         \<subseteq> set (calls (for_await (\<lambda>g. notifyObserverGroup sched this g ev) groups s))"
    by blast
  have "set (bindings g) \<subseteq> set (sched ev (bindings g))" by (simp add: assms(2))
  from complete_notifyObserverGroup[OF s'(1) this g(2) assms(4,5)] s'(2)
  show ?thesis by blast
qed

lemma invoked_phase:
  assumes "\<And>bs. set (sched ev bs) = set bs"
  shows "\<forall>c\<in>set (calls (for_await (\<lambda>g. notifyObserverGroup sched this g ev) groups s)).
           invoked c = None \<or> invoked c = Some ev"
proof (rule all_calls_for_await)
  fix g :: LifeCycleObserverGroup and s' :: 'a
  have "set (sched ev (bindings g)) \<subseteq> set (bindings g)" by (simp add: assms)
  from calls_notifyObserverGroup[of sched ev g this s', OF this]
  show "\<forall>c\<in>set (calls (notifyObserverGroup sched this g ev s')). invoked c = None \<or> invoked c = Some ev"
    by blast
qed

lemma sequenced_notifyGroups:
  assumes perm: "\<And>ev bs. set (sched ev bs) = set bs"
    and "distinct events"
    and "calls (notifyGroups sched this events groups s) = xs @ Invoke k ev' r # ys"
    and "events = es1 @ ev # es2" and "ev' \<in> set es2"
  shows "(\<forall>b\<in>set (concat (map bindings groups)). \<forall>obs h.
            get (ctx this) (key b) = Inr obs \<longrightarrow> obs ev = Some h \<longrightarrow>
            Invoke (key b) ev None \<in> set xs) \<and>
         Some ev \<notin> invoked ` set ys"
  using assms(2-5)
proof (induction events arbitrary: s xs es1)
  case Nil
  then show ?case by simp
next
  case (Cons e es)
  let ?phase = "\<lambda>event. for_await (\<lambda>g. notifyObserverGroup sched this g event) groups"
  let ?r0 = "?phase e s"
  let ?r1 = "notifyGroups sched this es groups (state ?r0)"
  have ev'_ne: "ev' \<noteq> e"
    using Cons.prems(1,3,4) by (cases es1) auto
  have not_in_r0: "Invoke k ev' r \<notin> set (calls ?r0)"
    using invoked_phase[of sched e this groups s, OF perm] ev'_ne by force
  have ok: "failure ?r0 = None"
  proof (rule ccontr)
    assume "failure ?r0 \<noteq> None"
    then have "notifyGroups sched this (e # es) groups s = ?r0"
      unfolding notifyGroups_def by (rule for_await_Cons_failed)
    with Cons.prems(2) not_in_r0 show False by simp
  qed
  have eq: "notifyGroups sched this (e # es) groups s
              = (failure ?r1, state ?r1, calls ?r0 @ calls ?r1)"
    unfolding notifyGroups_def using ok by (rule for_await_Cons_ok)
  from Cons.prems(2) have "calls ?r0 @ calls ?r1 = xs @ Invoke k ev' r # ys"
    unfolding eq by simp
  from append_eq_split[OF this not_in_r0]
  obtain zs where zs: "xs = calls ?r0 @ zs" "calls ?r1 = zs @ Invoke k ev' r # ys" by blast
  show ?case
  proof (cases es1)
    case Nil
    with Cons.prems(3) have e: "e = ev" and es: "es = es2" by simp_all
    have 1: "\<forall>b\<in>set (concat (map bindings groups)). \<forall>obs h.
            get (ctx this) (key b) = Inr obs \<longrightarrow> obs ev = Some h \<longrightarrow>
            Invoke (key b) ev None \<in> set xs"
    proof (intro ballI allI impI)
      fix b obs h
      assume b: "b \<in> set (concat (map bindings groups))"
        and obs: "get (ctx this) (key b) = Inr obs" and h: "obs ev = Some h"
      from ok have "failure (?phase ev s) = None" unfolding e .
      from complete_phase[of sched this ev groups s b obs h, OF this perm b obs h]
      show "Invoke (key b) ev None \<in> set xs" unfolding zs(1) e by simp
    qed
    have "ev \<notin> set es" using Cons.prems(1) e by simp
    moreover have "\<forall>c\<in>set (calls ?r1). invoked c = None \<or> invoked c \<in> Some ` set es"
      using calls_notifyGroups[of sched this es groups "state ?r0", OF perm] by blast
    ultimately have "\<forall>c\<in>set (calls ?r1). invoked c \<noteq> Some ev" by force
    then have "\<forall>c\<in>set ys. invoked c \<noteq> Some ev" unfolding zs(2) by simp
    then have 2: "Some ev \<notin> invoked ` set ys" by force
    from 1 2 show ?thesis by (intro conjI)
  next
    case (Cons e' es1')
    with Cons.prems(3) have "es = es1' @ ev # es2" by simp
    moreover have "distinct es" using Cons.prems(1) by simp
    ultimately have "(\<forall>b\<in>set (concat (map bindings groups)). \<forall>obs h.
            get (ctx this) (key b) = Inr obs \<longrightarrow> obs ev = Some h \<longrightarrow>
            Invoke (key b) ev None \<in> set zs) \<and>
         Some ev \<notin> invoked ` set ys"
      using Cons.IH[of "state ?r0" zs es1'] zs(2) Cons.prems(4) by blast
    then show ?thesis unfolding zs(1) by simp
  qed
qed

lemma run_events:
  assumes "\<forall>ev bs. mset (sched ev bs) = mset bs"
  shows "\<forall>c\<in>set (calls (start T sched this s)).
           invoked c = None \<or> invoked c \<in> Some ` {PreStart, Start, PostStart}"
    and "\<forall>c\<in>set (calls (stop T sched this s)).
           invoked c = None \<or> invoked c \<in> Some ` {PreStop, Stop, PostStop}"
proof -
  have perm: "set (sched ev bs) = set bs" for ev bs
    using assms mset_eq_setD by blast
  from calls_notifyGroups[of sched this "[PreStart, Start, PostStart]"
      "getObserverGroupsByOrder T this" s, OF perm]
  show "\<forall>c\<in>set (calls (start T sched this s)).
           invoked c = None \<or> invoked c \<in> Some ` {PreStart, Start, PostStart}"
    unfolding start_def Let_def by simp
  from calls_notifyGroups[of sched this "[PreStop, Stop, PostStop]"
      "rev (getObserverGroupsByOrder T this)" s, OF perm]
  show "\<forall>c\<in>set (calls (stop T sched this s)).
           invoked c = None \<or> invoked c \<in> Some ` {PreStop, Stop, PostStop}"
    unfolding stop_def Let_def by simp
qed

subsection \<open>Invocations and their order\<close>







lemma gets_resume:
  "filter (\<lambda>c. invoked c = None) (calls (resume this ev b s)) = []"
  using resume_cases[of this b ev s] by auto

lemma gets_notifyObserver:
  "filter (\<lambda>c. invoked c = None) (calls (notifyObserver this ev b s)) = [ctx_get_call this b]"
  using resume_cases[of this b ev s] by (auto simp: notifyObserver_def)

lemma concat_map_filter:
  "concat (map (\<lambda>x. if P x then [f x] else []) xs) = map f (filter P xs)"
  by (induction xs) auto

lemma hooks_resume:
  assumes "failure (resume this ev b s) = None"
  shows "filter (\<lambda>c. invoked c \<noteq> None) (calls (resume this ev b s))
           = (if has_method this ev b then [Invoke (key b) ev None] else [])"
proof (cases "get (ctx this) (key b)")
  case (Inl e)
  with assms show ?thesis by (simp add: resume_def)
next
  case (Inr observer)
  show ?thesis
  proof (cases "observer ev")
    case None
    with Inr show ?thesis by (simp add: resume_def invokeObserver_def has_method_def)
  next
    case (Some h)
    with Inr assms show ?thesis
      by (cases "h s") (auto simp: resume_def invokeObserver_def has_method_def)
  qed
qed

lemma hooks_notifyObserver:
  assumes "failure (notifyObserver this ev b s) = None"
  shows "filter (\<lambda>c. invoked c \<noteq> None) (calls (notifyObserver this ev b s))
           = (if has_method this ev b then [Invoke (key b) ev None] else [])"
proof -
  from assms have ok: "failure (resume this ev b s) = None"
    by (cases "resume this ev b s") (simp add: notifyObserver_def)
  have "filter (\<lambda>c. invoked c \<noteq> None) (calls (notifyObserver this ev b s))
          = filter (\<lambda>c. invoked c \<noteq> None) (calls (resume this ev b s))"
    by (cases "resume this ev b s") (simp add: notifyObserver_def ctx_get_call_def)
  with hooks_resume[OF ok] show ?thesis by simp
qed

lemma gets_notifyObserverGroup:
  assumes "failure (notifyObserverGroup sched this g ev s) = None"
  shows "filter (\<lambda>c. invoked c = None) (calls (notifyObserverGroup sched this g ev s))
           = map (ctx_get_call this) (bindings g)"
proof (cases "parallel (options this) = Some True")
  case False
  with assms have ok: "failure (for_await (notifyObserver this ev) (bindings g) s) = None"
    by (simp add: notifyObserverGroup_def)
  have "filter (\<lambda>c. invoked c = None) (calls (for_await (notifyObserver this ev) (bindings g) s))
          = concat (map (\<lambda>b. [ctx_get_call this b]) (bindings g))"
    by (rule filter_calls_for_await[OF _ ok]) (rule gets_notifyObserver)
  with False show ?thesis by (simp add: notifyObserverGroup_def)
next
  case True
  let ?r = "Promise_all (resume this ev) (sched ev (bindings g)) s"
  have eq: "notifyObserverGroup sched this g ev s =
              (failure ?r, state ?r, map (ctx_get_call this) (bindings g) @ calls ?r)"
    using True by (cases ?r) (simp add: notifyObserverGroup_def)
  from Promise_all_resume[of this ev "sched ev (bindings g)" s]
  have "\<forall>c\<in>set (calls ?r). \<exists>k r. c = Invoke k ev r" by (elim conjE)
  then have "\<forall>c\<in>set (calls ?r). invoked c \<noteq> None" by fastforce
  then have 1: "filter (\<lambda>c. invoked c = None) (calls ?r) = []"
    by (simp add: filter_empty_conv)
  have 2: "filter (\<lambda>c. invoked c = None) (map (ctx_get_call this) (bindings g))
             = map (ctx_get_call this) (bindings g)"
    by (simp add: filter_id_conv ctx_get_call_def)
  from 1 2 show ?thesis unfolding eq by simp
qed

lemma hooks_notifyObserverGroup:
  assumes "failure (notifyObserverGroup sched this g ev s) = None"
  shows "filter (\<lambda>c. invoked c \<noteq> None) (calls (notifyObserverGroup sched this g ev s))
           = map (\<lambda>b. Invoke (key b) ev None)
               (filter (has_method this ev) (members sched this ev g))"
proof (cases "parallel (options this) = Some True")
  case False
  with assms have ok: "failure (for_await (notifyObserver this ev) (bindings g) s) = None"
    by (simp add: notifyObserverGroup_def)
  have "filter (\<lambda>c. invoked c \<noteq> None) (calls (for_await (notifyObserver this ev) (bindings g) s))
          = concat (map (\<lambda>b. if has_method this ev b then [Invoke (key b) ev None] else [])
                      (bindings g))"
    by (rule filter_calls_for_await[OF _ ok]) (rule hooks_notifyObserver)
  with False show ?thesis
    by (simp only: notifyObserverGroup_def members_def concat_map_filter if_False)
next
  case True
  let ?r = "Promise_all (resume this ev) (sched ev (bindings g)) s"
  have eq: "notifyObserverGroup sched this g ev s =
              (failure ?r, state ?r, map (ctx_get_call this) (bindings g) @ calls ?r)"
    using True by (cases ?r) (simp add: notifyObserverGroup_def)
  from assms have ok: "failure ?r = None" unfolding eq by simp
  have 1: "filter (\<lambda>c. invoked c \<noteq> None) (calls ?r)
          = concat (map (\<lambda>b. if has_method this ev b then [Invoke (key b) ev None] else [])
                      (sched ev (bindings g)))"
    by (rule filter_calls_Promise_all[OF _ ok]) (rule hooks_resume)
  have 2: "filter (\<lambda>c. invoked c \<noteq> None) (map (ctx_get_call this) (bindings g)) = []"
    by (simp add: filter_empty_conv ctx_get_call_def)
  have m: "members sched this ev g = sched ev (bindings g)"
    using True by (simp add: members_def)
  from 1 2 show ?thesis unfolding eq m concat_map_filter by simp
qed

lemma gets_phase:
  assumes "failure (for_await (\<lambda>g. notifyObserverGroup sched this g ev) groups s) = None"
  shows "filter (\<lambda>c. invoked c = None)
           (calls (for_await (\<lambda>g. notifyObserverGroup sched this g ev) groups s))
           = map (ctx_get_call this) (concat (map bindings groups))"
proof -
  have "filter (\<lambda>c. invoked c = None)
           (calls (for_await (\<lambda>g. notifyObserverGroup sched this g ev) groups s))
          = concat (map (\<lambda>g. map (ctx_get_call this) (bindings g)) groups)"
    by (rule filter_calls_for_await[OF _ assms]) (rule gets_notifyObserverGroup)
  then show ?thesis by (simp add: map_concat o_def)
qed

lemma hooks_phase:
  assumes "failure (for_await (\<lambda>g. notifyObserverGroup sched this g ev) groups s) = None"
  shows "filter (\<lambda>c. invoked c \<noteq> None)
           (calls (for_await (\<lambda>g. notifyObserverGroup sched this g ev) groups s))
           = map (\<lambda>b. Invoke (key b) ev None)
               (filter (has_method this ev) (concat (map (members sched this ev) groups)))"
proof -
  have "filter (\<lambda>c. invoked c \<noteq> None)
           (calls (for_await (\<lambda>g. notifyObserverGroup sched this g ev) groups s))
          = concat (map (\<lambda>g. map (\<lambda>b. Invoke (key b) ev None)
                     (filter (has_method this ev) (members sched this ev g))) groups)"
    by (rule filter_calls_for_await[OF _ assms]) (rule hooks_notifyObserverGroup)
  then show ?thesis
    by (simp add: map_concat filter_concat o_def)
qed

lemma notification_order:
  assumes "failure (notifyGroups sched this events groups s) = None"
  shows "filter (\<lambda>c. invoked c = None) (calls (notifyGroups sched this events groups s))
           = concat (map (\<lambda>ev. map (ctx_get_call this) (concat (map bindings groups))) events)"
    and "filter (\<lambda>c. invoked c \<noteq> None) (calls (notifyGroups sched this events groups s))
           = concat (map (\<lambda>ev. map (\<lambda>b. Invoke (key b) ev None)
               (filter (has_method this ev) (concat (map (members sched this ev) groups)))) events)"
proof -
  let ?phase = "\<lambda>event. for_await (\<lambda>g. notifyObserverGroup sched this g event) groups"
  have ok: "failure (for_await ?phase events s) = None"
    using assms unfolding notifyGroups_def .
  show "filter (\<lambda>c. invoked c = None) (calls (notifyGroups sched this events groups s))
           = concat (map (\<lambda>ev. map (ctx_get_call this) (concat (map bindings groups))) events)"
    unfolding notifyGroups_def
    by (rule filter_calls_for_await[OF _ ok]) (rule gets_phase)
  show "filter (\<lambda>c. invoked c \<noteq> None) (calls (notifyGroups sched this events groups s))
           = concat (map (\<lambda>ev. map (\<lambda>b. Invoke (key b) ev None)
               (filter (has_method this ev) (concat (map (members sched this ev) groups)))) events)"
    unfolding notifyGroups_def
    by (rule filter_calls_for_await[OF _ ok]) (rule hooks_phase)
qed




lemmas notify_defs =
  start_def stop_def notifyGroups_def notifyObserverGroup_def notifyObserver_def resume_def
  ctx_get_call_def invokeObserver_def in_order_def MockObserver_def ThrowingObserver_def
  StartStopObserver_def

subsection \<open>Failures propagate\<close>






subsection \<open>A missing method\<close>


text \<open>
  An observer with the methods \<open>start\<close> and \<open>stop\<close> only: in a run of \<open>start\<close> it is
  resolved in every phase and invoked in the phase \<open>start\<close> alone.
\<close>

lemma start_stop_only:
  "start CoreTags in_order (two_groups_registry None False (StartStopObserver ''B'')) [] =
     (None, [''preStart-A'', ''start-A'', ''start-B'', ''postStart-A''],
      [Get ''A'' None, Invoke ''A'' PreStart None, Get ''B'' None,
       Get ''A'' None, Invoke ''A'' Start None, Get ''B'' None, Invoke ''B'' Start None,
       Get ''A'' None, Invoke ''A'' PostStart None, Get ''B'' None])"
  by (simp add: fixture_defs grouping_defs notify_defs Let_def)


subsection \<open>Counting the calls of \<open>ctx.get\<close>\<close>

lemma two_groups_start:
  "start CoreTags in_order (two_groups_registry None False (MockObserver ''B'')) [] =
     (None,
      [''preStart-A'', ''preStart-B'', ''start-A'', ''start-B'', ''postStart-A'', ''postStart-B''],
      [Get ''A'' None, Invoke ''A'' PreStart None, Get ''B'' None, Invoke ''B'' PreStart None,
       Get ''A'' None, Invoke ''A'' Start None, Get ''B'' None, Invoke ''B'' Start None,
       Get ''A'' None, Invoke ''A'' PostStart None, Get ''B'' None, Invoke ''B'' PostStart None])"
  by (simp add: fixture_defs grouping_defs notify_defs Let_def)

lemma two_groups_found:
  "map key (findObserverBindings CoreTags (two_groups_registry None False (MockObserver ''B'')))
     = [''A'', ''B'']"
  by (simp add: fixture_defs grouping_defs)

text \<open>
  C3, as the specification states it: during one run of \<open>start\<close> or \<open>stop\<close> the
  instance of an entry is resolved at most once. In the registry with the observers \<open>A\<close>
  and \<open>B\<close> one run of \<open>start\<close> calls \<open>ctx.get\<close> three times for the one binding with
  the key \<open>A\<close>, once in every phase.
\<close>

theorem resolved_at_most_once_counterexample:
  "map key (findObserverBindings CoreTags (two_groups_registry None False (MockObserver ''B'')))
     = [''A'', ''B''] \<and>
   filter (resolves ''A'')
     (calls (start CoreTags in_order (two_groups_registry None False (MockObserver ''B'')) []))
     = [Get ''A'' None, Get ''A'' None, Get ''A'' None]"
  by (simp add: two_groups_start two_groups_found)

subsection \<open>Resolutions in a run\<close>

text \<open>
  C3, amended: in one run of \<open>start\<close> or \<open>stop\<close> the instance of an entry is resolved
  once in every phase: \<open>ctx.get\<close> is called for a key at most three times for every
  discovered binding with that key, and exactly three times when the run succeeds.
  Nothing is kept from one phase or one run to the next: this holds for every run.
\<close>

theorem resolved_once_per_phase:
  assumes "r = start T sched this s \<or> r = stop T sched this s"
  shows "length (filter (resolves k) (calls r))
           \<le> 3 * length (filter (\<lambda>b. key b = k) (findObserverBindings T this)) \<and>
         (failure r = None \<longrightarrow>
            length (filter (resolves k) (calls r))
              = 3 * length (filter (\<lambda>b. key b = k) (findObserverBindings T this)))"
proof -
  let ?gs = "getObserverGroupsByOrder T this"
  have n1: "length (filter (\<lambda>b. key b = k) (concat (map bindings ?gs)))
              = length (filter (\<lambda>b. key b = k) (findObserverBindings T this))"
    by (rule count_groups) (rule mset_bindings_groups)
  have n2: "length (filter (\<lambda>b. key b = k) (concat (map bindings (rev ?gs))))
              = length (filter (\<lambda>b. key b = k) (findObserverBindings T this))"
    by (rule count_groups) (rule mset_bindings_groups_rev)
  from assms show ?thesis
  proof
    assume r: "r = start T sched this s"
    from count_notifyGroups[of k sched this "[PreStart, Start, PostStart]" ?gs s]
    show ?thesis unfolding r start_def Let_def n1 by simp
  next
    assume r: "r = stop T sched this s"
    from count_notifyGroups[of k sched this "[PreStop, Stop, PostStop]" "rev ?gs" s]
    show ?thesis unfolding r stop_def Let_def n2 by simp
  qed
qed

theorem resolved_once_per_phase_witness:
  "failure (start CoreTags in_order (two_groups_registry None False (MockObserver ''B'')) []) = None \<and>
   length (filter (resolves ''A'')
      (calls (start CoreTags in_order (two_groups_registry None False (MockObserver ''B'')) [])))
     = 3 * length (filter (\<lambda>b. key b = ''A'')
         (findObserverBindings CoreTags (two_groups_registry None False (MockObserver ''B''))))"
proof -
  have ok: "failure (start CoreTags in_order (two_groups_registry None False (MockObserver ''B'')) [])
              = None"
    by (simp add: two_groups_start)
  from resolved_once_per_phase [of _ CoreTags in_order
      "two_groups_registry None False (MockObserver ''B'')" "[]" "''A''"] ok
  show ?thesis by blast
qed


subsection \<open>Which bindings are discovered\<close>




subsection \<open>Phases are sequenced\<close>

text \<open>
  C4: in a run of \<open>start\<close> or \<open>stop\<close>, when a method of a later phase is invoked,
  every discovered binding whose observer has a method for an earlier phase has had that
  method invoked and completed before, in all the groups; and no method of the earlier
  phase is invoked afterwards. This holds in the serial mode and in the parallel mode,
  for every schedule that permutes the groups.
\<close>

theorem phases_strictly_sequenced:
  assumes "\<forall>ev bs. mset (sched ev bs) = mset bs"
    and "r = start T sched this s \<or> r = stop T sched this s"
    and "calls r = xs @ Invoke k ev' r' # ys"
    and "(ev, ev') \<in> {(PreStart, Start), (PreStart, PostStart), (Start, PostStart),
                       (PreStop, Stop), (PreStop, PostStop), (Stop, PostStop)}"
  shows "(\<forall>b\<in>set (findObserverBindings T this). \<forall>obs h.
            get (ctx this) (key b) = Inr obs \<longrightarrow> obs ev = Some h \<longrightarrow>
            Invoke (key b) ev None \<in> set xs) \<and>
         Some ev \<notin> invoked ` set ys"
proof -
  have perm: "set (sched ev bs) = set bs" for ev bs
    using assms(1) mset_eq_setD by blast
  have mem: "Invoke k ev' r' \<in> set (calls r)" using assms(3) by simp
  from assms(2) show ?thesis
  proof
    assume r: "r = start T sched this s"
    let ?gs = "getObserverGroupsByOrder T this"
    have c: "calls (notifyGroups sched this [PreStart, Start, PostStart] ?gs s)
               = xs @ Invoke k ev' r' # ys"
      using assms(3) unfolding r start_def Let_def .
    from run_events(1)[OF assms(1), of T this s] mem
    have "ev' \<in> {PreStart, Start, PostStart}" unfolding r by force
    with assms(4) consider
        "ev = PreStart" "ev' = Start" | "ev = PreStart" "ev' = PostStart"
      | "ev = Start" "ev' = PostStart"
      by auto
    then have "(\<forall>b\<in>set (concat (map bindings ?gs)). \<forall>obs h.
            get (ctx this) (key b) = Inr obs \<longrightarrow> obs ev = Some h \<longrightarrow>
            Invoke (key b) ev None \<in> set xs) \<and> Some ev \<notin> invoked ` set ys"
    proof cases
      case 1
      show ?thesis
        by (rule sequenced_notifyGroups[OF perm _ c, of "[]" ev "[Start, PostStart]"])
           (simp_all add: 1)
    next
      case 2
      show ?thesis
        by (rule sequenced_notifyGroups[OF perm _ c, of "[]" ev "[Start, PostStart]"])
           (simp_all add: 2)
    next
      case 3
      show ?thesis
        by (rule sequenced_notifyGroups[OF perm _ c, of "[PreStart]" ev "[PostStart]"])
           (simp_all add: 3)
    qed
    then show ?thesis unfolding set_bindings_groups .
  next
    assume r: "r = stop T sched this s"
    let ?gs = "rev (getObserverGroupsByOrder T this)"
    have c: "calls (notifyGroups sched this [PreStop, Stop, PostStop] ?gs s)
               = xs @ Invoke k ev' r' # ys"
      using assms(3) unfolding r stop_def Let_def .
    from run_events(2)[OF assms(1), of T this s] mem
    have "ev' \<in> {PreStop, Stop, PostStop}" unfolding r by force
    with assms(4) consider
        "ev = PreStop" "ev' = Stop" | "ev = PreStop" "ev' = PostStop"
      | "ev = Stop" "ev' = PostStop"
      by auto
    then have "(\<forall>b\<in>set (concat (map bindings ?gs)). \<forall>obs h.
            get (ctx this) (key b) = Inr obs \<longrightarrow> obs ev = Some h \<longrightarrow>
            Invoke (key b) ev None \<in> set xs) \<and> Some ev \<notin> invoked ` set ys"
    proof cases
      case 1
      show ?thesis
        by (rule sequenced_notifyGroups[OF perm _ c, of "[]" ev "[Stop, PostStop]"])
           (simp_all add: 1)
    next
      case 2
      show ?thesis
        by (rule sequenced_notifyGroups[OF perm _ c, of "[]" ev "[Stop, PostStop]"])
           (simp_all add: 2)
    next
      case 3
      show ?thesis
        by (rule sequenced_notifyGroups[OF perm _ c, of "[PreStop]" ev "[PostStop]"])
           (simp_all add: 3)
    qed
    then show ?thesis unfolding set_bindings_groups_rev .
  qed
qed

theorem phases_strictly_sequenced_witness:
  "calls (start CoreTags in_order (two_groups_registry None False (MockObserver ''B'')) []) =
     [Get ''A'' None, Invoke ''A'' PreStart None, Get ''B'' None, Invoke ''B'' PreStart None,
      Get ''A'' None] @
     Invoke ''A'' Start None #
     [Get ''B'' None, Invoke ''B'' Start None,
      Get ''A'' None, Invoke ''A'' PostStart None, Get ''B'' None, Invoke ''B'' PostStart None] \<and>
   Invoke ''B'' PreStart None
     \<in> set [Get ''A'' None, Invoke ''A'' PreStart None, Get ''B'' None,
             Invoke ''B'' PreStart None, Get ''A'' None] \<and>
   Some PreStart
     \<notin> invoked ` set [Get ''B'' None, Invoke ''B'' Start None, Get ''A'' None,
                       Invoke ''A'' PostStart None, Get ''B'' None, Invoke ''B'' PostStart None]"
proof -
  let ?reg = "two_groups_registry None False (MockObserver ''B'')"
  let ?r = "start CoreTags in_order ?reg []"
  let ?xs = "[Get ''A'' None, Invoke ''A'' PreStart None, Get ''B'' None,
              Invoke ''B'' PreStart None, Get ''A'' None]"
  let ?ys = "[Get ''B'' None, Invoke ''B'' Start None, Get ''A'' None,
              Invoke ''A'' PostStart None, Get ''B'' None, Invoke ''B'' PostStart None]"
  have perm: "\<forall>ev bs. mset (in_order ev bs) = mset bs" by (simp add: in_order_def)
  have run: "?r = start CoreTags in_order ?reg [] \<or> ?r = stop CoreTags in_order ?reg []"
    by simp
  have split: "calls ?r = ?xs @ Invoke ''A'' Start None # ?ys"
    by (simp add: two_groups_start)
  have pair: "(PreStart, Start) \<in> {(PreStart, Start), (PreStart, PostStart), (Start, PostStart),
                       (PreStop, Stop), (PreStop, PostStop), (Stop, PostStop)}"
    by simp
  note S = phases_strictly_sequenced [OF perm run split pair]
  have b: "givenConstantBinding ''B'' ''g2'' \<in> set (findObserverBindings CoreTags ?reg)"
    by (simp add: fixture_defs grouping_defs)
  have g: "get (ctx ?reg) (key (givenConstantBinding ''B'' ''g2'')) = Inr (MockObserver ''B'')"
    by (simp add: fixture_defs)
  have h: "MockObserver ''B'' PreStart
             = Some (\<lambda>events. (None, events @ [event_name PreStart @ ''-'' @ ''B'']))"
    by (simp add: MockObserver_def)
  have k: "key (givenConstantBinding ''B'' ''g2'') = ''B''" by (simp add: fixture_defs)
  from S have "\<forall>b\<in>set (findObserverBindings CoreTags ?reg). \<forall>obs h.
            get (ctx ?reg) (key b) = Inr obs \<longrightarrow> obs PreStart = Some h \<longrightarrow>
            Invoke (key b) PreStart None \<in> set ?xs"
    by (elim conjE)
  from this[rule_format, OF b g h] have 1: "Invoke ''B'' PreStart None \<in> set ?xs"
    unfolding k .
  from S have 2: "Some PreStart \<notin> invoked ` set ?ys" by (elim conjE)
  from split 1 2 show ?thesis by (intro conjI)
qed

subsection \<open>Two observers in two groups\<close>

lemma sched_single:
  assumes "\<forall>ev bs. mset (sched ev bs) = mset bs"
  shows "sched ev [b] = [b]"
proof -
  from assms have "mset (sched ev [b]) = mset [b]" by blast
  then show ?thesis by simp
qed

lemma two_groups_groups:
  "getObserverGroupsByOrder CoreTags (two_groups_registry opts b_first observerB) =
     [\<lparr>group = ''g1'', bindings = [givenConstantBinding ''A'' ''g1'']\<rparr>,
      \<lparr>group = ''g2'', bindings = [givenConstantBinding ''B'' ''g2'']\<rparr>]"
  by (cases b_first) (simp_all add: fixture_defs grouping_defs Let_def)

lemma two_groups_get:
  "get (ctx (two_groups_registry opts b_first observerB)) ''A'' = Inr (MockObserver ''A'')"
  "get (ctx (two_groups_registry opts b_first observerB)) ''B'' = Inr observerB"
  by (cases b_first; simp add: fixture_defs)+

lemma two_groups_keys:
  "key (givenConstantBinding ''A'' ''g1'') = ''A''"
  "key (givenConstantBinding ''B'' ''g2'') = ''B''"
  by (simp_all add: fixture_defs)

lemma two_by_two_groups:
  "getObserverGroupsByOrder CoreTags (two_by_two_registry opts) =
     [\<lparr>group = ''g1'',
       bindings = [givenConstantBinding ''A1'' ''g1'', givenConstantBinding ''A2'' ''g1'']\<rparr>,
      \<lparr>group = ''g2'',
       bindings = [givenConstantBinding ''B1'' ''g2'', givenConstantBinding ''B2'' ''g2'']\<rparr>]"
  by (simp add: fixture_defs grouping_defs Let_def)

lemma two_by_two_get:
  "get (ctx (two_by_two_registry opts)) ''A1'' = Inr (MockObserver ''A1'')"
  "get (ctx (two_by_two_registry opts)) ''A2'' = Inr (MockObserver ''A2'')"
  "get (ctx (two_by_two_registry opts)) ''B1'' = Inr (MockObserver ''B1'')"
  "get (ctx (two_by_two_registry opts)) ''B2'' = Inr (MockObserver ''B2'')"
  by (simp_all add: fixture_defs)

lemma two_by_two_keys:
  "key (givenConstantBinding k g) = k"
  by (simp add: fixture_defs)

lemma two_by_two_parallel:
  "parallel (options (two_by_two_registry None)) = Some True"
  by (simp add: fixture_defs)

lemma two_by_two_start:
  "start CoreTags in_order (two_by_two_registry None) [] =
     (None,
      [''preStart-A1'', ''preStart-A2'', ''preStart-B1'', ''preStart-B2'',
       ''start-A1'', ''start-A2'', ''start-B1'', ''start-B2'',
       ''postStart-A1'', ''postStart-A2'', ''postStart-B1'', ''postStart-B2''],
      [Get ''A1'' None, Get ''A2'' None, Invoke ''A1'' PreStart None, Invoke ''A2'' PreStart None,
       Get ''B1'' None, Get ''B2'' None, Invoke ''B1'' PreStart None, Invoke ''B2'' PreStart None,
       Get ''A1'' None, Get ''A2'' None, Invoke ''A1'' Start None, Invoke ''A2'' Start None,
       Get ''B1'' None, Get ''B2'' None, Invoke ''B1'' Start None, Invoke ''B2'' Start None,
       Get ''A1'' None, Get ''A2'' None, Invoke ''A1'' PostStart None, Invoke ''A2'' PostStart None,
       Get ''B1'' None, Get ''B2'' None, Invoke ''B1'' PostStart None, Invoke ''B2'' PostStart None])"
  by (simp add: start_def notifyGroups_def notifyObserverGroup_def resume_def ctx_get_call_def
        invokeObserver_def in_order_def MockObserver_def two_by_two_groups two_by_two_get
        two_by_two_keys two_by_two_parallel Let_def)

lemma two_by_two_stop:
  "stop CoreTags in_order (two_by_two_registry None) s =
     (None,
      s @ [''preStop-B1'', ''preStop-B2'', ''preStop-A1'', ''preStop-A2'',
           ''stop-B1'', ''stop-B2'', ''stop-A1'', ''stop-A2'',
           ''postStop-B1'', ''postStop-B2'', ''postStop-A1'', ''postStop-A2''],
      [Get ''B1'' None, Get ''B2'' None, Invoke ''B1'' PreStop None, Invoke ''B2'' PreStop None,
       Get ''A1'' None, Get ''A2'' None, Invoke ''A1'' PreStop None, Invoke ''A2'' PreStop None,
       Get ''B1'' None, Get ''B2'' None, Invoke ''B1'' Stop None, Invoke ''B2'' Stop None,
       Get ''A1'' None, Get ''A2'' None, Invoke ''A1'' Stop None, Invoke ''A2'' Stop None,
       Get ''B1'' None, Get ''B2'' None, Invoke ''B1'' PostStop None, Invoke ''B2'' PostStop None,
       Get ''A1'' None, Get ''A2'' None, Invoke ''A1'' PostStop None, Invoke ''A2'' PostStop None])"
  by (simp add: stop_def notifyGroups_def notifyObserverGroup_def resume_def ctx_get_call_def
        invokeObserver_def in_order_def MockObserver_def two_by_two_groups two_by_two_get
        two_by_two_keys two_by_two_parallel Let_def)

subsection \<open>The trace of start and stop\<close>

text \<open>
  C2: \<open>stop\<close> goes through the groups in the reverse order and through the members of
  a group in the same order as \<open>start\<close>. For every registry, when \<open>start\<close> and then
  \<open>stop\<close> succeed:
  \<^item> the methods invoked by \<open>start\<close> are, phase after phase, those of the members that
    have the method, group after group in the order of \<open>getObserverGroupsByOrder\<close>; those
    invoked by \<open>stop\<close> are the same with the list of groups reversed and the members
    of a group (\<open>members\<close>) in the same order: the order of the group in the serial mode,
    the order of the schedule in the parallel mode;
  \<^item> the calls of \<open>ctx.get\<close> are those for the bindings of the groups, in the order
    of the bindings in the group in both modes, the groups reversed for \<open>stop\<close>;
  \<^item> for the two observers \<open>A\<close> (group \<open>g1\<close>) and \<open>B\<close> (group \<open>g2\<close>) with all six
    methods, under the order \<open>['g1', 'g2']\<close>, whatever the options, the order of
    registration and the schedule are, \<open>start\<close> followed by \<open>stop\<close> succeeds and
    the events pushed are exactly the twelve of the test \<open>allows pre/post events\<close>.
\<close>

theorem stop_reverses_groups_only:
  assumes "\<forall>ev bs. mset (sched ev bs) = mset bs"
    and "r1 = start T sched this s" and "failure r1 = None"
    and "r2 = stop T sched this (state r1)" and "failure r2 = None"
  shows "filter (\<lambda>c. invoked c \<noteq> None) (calls r1) =
           concat (map (\<lambda>ev. map (\<lambda>b. Invoke (key b) ev None)
                    (filter (has_method this ev)
                       (concat (map (members sched this ev) (getObserverGroupsByOrder T this)))))
             [PreStart, Start, PostStart]) \<and>
         filter (\<lambda>c. invoked c \<noteq> None) (calls r2) =
           concat (map (\<lambda>ev. map (\<lambda>b. Invoke (key b) ev None)
                    (filter (has_method this ev)
                       (concat (map (members sched this ev) (rev (getObserverGroupsByOrder T this))))))
             [PreStop, Stop, PostStop]) \<and>
         filter (\<lambda>c. invoked c = None) (calls r1) =
           concat (map (\<lambda>ev. map (ctx_get_call this)
                    (concat (map bindings (getObserverGroupsByOrder T this))))
             [PreStart, Start, PostStart]) \<and>
         filter (\<lambda>c. invoked c = None) (calls r2) =
           concat (map (\<lambda>ev. map (ctx_get_call this)
                    (concat (map bindings (rev (getObserverGroupsByOrder T this)))))
             [PreStop, Stop, PostStop]) \<and>
         (\<forall>ev g. mset (members sched this ev g) = mset (bindings g) \<and>
            (parallel (options this) \<noteq> Some True \<longrightarrow> members sched this ev g = bindings g)) \<and>
         (\<forall>opts b_first.
            failure (start CoreTags sched (two_groups_registry opts b_first (MockObserver ''B'')) [])
              = None \<and>
            failure (stop CoreTags sched (two_groups_registry opts b_first (MockObserver ''B''))
                       (state (start CoreTags sched
                                 (two_groups_registry opts b_first (MockObserver ''B'')) [])))
              = None \<and>
            state (stop CoreTags sched (two_groups_registry opts b_first (MockObserver ''B''))
                     (state (start CoreTags sched
                               (two_groups_registry opts b_first (MockObserver ''B'')) []))) =
              [''preStart-A'', ''preStart-B'', ''start-A'', ''start-B'',
               ''postStart-A'', ''postStart-B'',
               ''preStop-B'', ''preStop-A'', ''stop-B'', ''stop-A'',
               ''postStop-B'', ''postStop-A''])"
proof -
  have ok1: "failure (notifyGroups sched this [PreStart, Start, PostStart]
                        (getObserverGroupsByOrder T this) s) = None"
    using assms(2,3) by (simp add: start_def Let_def)
  have ok2: "failure (notifyGroups sched this [PreStop, Stop, PostStop]
                        (rev (getObserverGroupsByOrder T this)) (state r1)) = None"
    using assms(4,5) by (simp add: stop_def Let_def)
  have c1: "calls r1 = calls (notifyGroups sched this [PreStart, Start, PostStart]
                        (getObserverGroupsByOrder T this) s)"
    using assms(2) by (simp add: start_def Let_def)
  have c2: "calls r2 = calls (notifyGroups sched this [PreStop, Stop, PostStop]
                        (rev (getObserverGroupsByOrder T this)) (state r1))"
    using assms(4) by (simp add: stop_def Let_def)
  note 1 = notification_order(2)[OF ok1, folded c1]
  note 2 = notification_order(2)[OF ok2, folded c2]
  note 3 = notification_order(1)[OF ok1, folded c1]
  note 4 = notification_order(1)[OF ok2, folded c2]
  have 5: "\<forall>ev g. mset (members sched this ev g) = mset (bindings g) \<and>
            (parallel (options this) \<noteq> Some True \<longrightarrow> members sched this ev g = bindings g)"
    using assms(1) by (simp add: members_def)
  have 6: "\<forall>opts b_first.
            failure (start CoreTags sched (two_groups_registry opts b_first (MockObserver ''B'')) [])
              = None \<and>
            failure (stop CoreTags sched (two_groups_registry opts b_first (MockObserver ''B''))
                       (state (start CoreTags sched
                                 (two_groups_registry opts b_first (MockObserver ''B'')) [])))
              = None \<and>
            state (stop CoreTags sched (two_groups_registry opts b_first (MockObserver ''B''))
                     (state (start CoreTags sched
                               (two_groups_registry opts b_first (MockObserver ''B'')) []))) =
              [''preStart-A'', ''preStart-B'', ''start-A'', ''start-B'',
               ''postStart-A'', ''postStart-B'',
               ''preStop-B'', ''preStop-A'', ''stop-B'', ''stop-A'',
               ''postStop-B'', ''postStop-A'']"
  proof (intro allI)
    fix opts :: "LifeCycleObserverOptions option" and b_first :: bool
    let ?reg = "two_groups_registry opts b_first (MockObserver ''B'')"
    let ?q1 = "start CoreTags sched ?reg []"
    let ?q2 = "stop CoreTags sched ?reg (state ?q1)"
    note single = sched_single[OF assms(1)]
    have q1: "?q1 = (None,
        [''preStart-A'', ''preStart-B'', ''start-A'', ''start-B'', ''postStart-A'', ''postStart-B''],
        calls ?q1)"
      by (cases "parallel (options ?reg) = Some True")
         (simp_all add: start_def notifyGroups_def notifyObserverGroup_def notifyObserver_def
            resume_def ctx_get_call_def invokeObserver_def MockObserver_def
            two_groups_groups two_groups_get two_groups_keys single Let_def)
    then have s1: "state ?q1 =
        [''preStart-A'', ''preStart-B'', ''start-A'', ''start-B'', ''postStart-A'', ''postStart-B'']"
      and f1: "failure ?q1 = None"
      by (metis state.simps, metis failure.simps)
    have q2: "?q2 = (None,
        [''preStart-A'', ''preStart-B'', ''start-A'', ''start-B'', ''postStart-A'', ''postStart-B'',
         ''preStop-B'', ''preStop-A'', ''stop-B'', ''stop-A'', ''postStop-B'', ''postStop-A''],
        calls ?q2)"
      unfolding s1
      by (cases "parallel (options ?reg) = Some True")
         (simp_all add: stop_def notifyGroups_def notifyObserverGroup_def notifyObserver_def
            resume_def ctx_get_call_def invokeObserver_def MockObserver_def
            two_groups_groups two_groups_get two_groups_keys single Let_def)
    then have "state ?q2 =
        [''preStart-A'', ''preStart-B'', ''start-A'', ''start-B'', ''postStart-A'', ''postStart-B'',
         ''preStop-B'', ''preStop-A'', ''stop-B'', ''stop-A'', ''postStop-B'', ''postStop-A'']"
      and "failure ?q2 = None"
      by (metis state.simps, metis failure.simps)
    with f1 show "failure ?q1 = None \<and> failure ?q2 = None \<and> state ?q2 =
        [''preStart-A'', ''preStart-B'', ''start-A'', ''start-B'', ''postStart-A'', ''postStart-B'',
         ''preStop-B'', ''preStop-A'', ''stop-B'', ''stop-A'', ''postStop-B'', ''postStop-A'']"
      by (intro conjI)
  qed
  show ?thesis by (intro conjI 1 2 3 4 5 6)
qed

text \<open>
  Two observers in each of the groups \<open>g1\<close> and \<open>g2\<close>, registered in the order
  \<open>B1\<close>, \<open>A1\<close>, \<open>B2\<close>, \<open>A2\<close>: \<open>stop\<close> after \<open>start\<close> invokes the methods of
  \<open>B1\<close> and \<open>B2\<close> before those of \<open>A1\<close> and \<open>A2\<close>, and \<open>B1\<close> before \<open>B2\<close>,
  \<open>A1\<close> before \<open>A2\<close>.
\<close>

theorem stop_reverses_groups_only_witness:
  "(\<forall>ev bs. mset (in_order ev bs) = mset bs) \<and>
   failure (start CoreTags in_order (two_by_two_registry None) []) = None \<and>
   failure (stop CoreTags in_order (two_by_two_registry None)
              (state (start CoreTags in_order (two_by_two_registry None) []))) = None \<and>
   filter (\<lambda>c. invoked c \<noteq> None)
     (calls (stop CoreTags in_order (two_by_two_registry None)
               (state (start CoreTags in_order (two_by_two_registry None) [])))) =
     [Invoke ''B1'' PreStop None, Invoke ''B2'' PreStop None,
      Invoke ''A1'' PreStop None, Invoke ''A2'' PreStop None,
      Invoke ''B1'' Stop None, Invoke ''B2'' Stop None,
      Invoke ''A1'' Stop None, Invoke ''A2'' Stop None,
      Invoke ''B1'' PostStop None, Invoke ''B2'' PostStop None,
      Invoke ''A1'' PostStop None, Invoke ''A2'' PostStop None] \<and>
   state (stop CoreTags in_order (two_groups_registry None True (MockObserver ''B''))
            (state (start CoreTags in_order
                      (two_groups_registry None True (MockObserver ''B'')) []))) =
     [''preStart-A'', ''preStart-B'', ''start-A'', ''start-B'',
      ''postStart-A'', ''postStart-B'',
      ''preStop-B'', ''preStop-A'', ''stop-B'', ''stop-A'',
      ''postStop-B'', ''postStop-A'']"
proof -
  let ?reg = "two_by_two_registry None"
  let ?r1 = "start CoreTags in_order ?reg []"
  let ?r2 = "stop CoreTags in_order ?reg (state ?r1)"
  have perm: "\<forall>ev bs. mset (in_order ev bs) = mset bs" by (simp add: in_order_def)
  have ok1: "failure ?r1 = None" by (simp add: two_by_two_start)
  have ok2: "failure ?r2 = None" by (simp add: two_by_two_stop)
  note S = stop_reverses_groups_only [OF perm refl ok1 refl ok2]
  have has: "has_method ?reg ev (givenConstantBinding ''A1'' ''g1'')"
    "has_method ?reg ev (givenConstantBinding ''A2'' ''g1'')"
    "has_method ?reg ev (givenConstantBinding ''B1'' ''g2'')"
    "has_method ?reg ev (givenConstantBinding ''B2'' ''g2'')" for ev
    by (simp_all add: has_method_def two_by_two_get two_by_two_keys MockObserver_def)
  from S have "filter (\<lambda>c. invoked c \<noteq> None) (calls ?r2) =
           concat (map (\<lambda>ev. map (\<lambda>b. Invoke (key b) ev None)
                    (filter (has_method ?reg ev)
                       (concat (map (members in_order ?reg ev)
                                  (rev (getObserverGroupsByOrder CoreTags ?reg))))))
             [PreStop, Stop, PostStop])"
    by (elim conjE)
  then have 1: "filter (\<lambda>c. invoked c \<noteq> None) (calls ?r2) =
     [Invoke ''B1'' PreStop None, Invoke ''B2'' PreStop None,
      Invoke ''A1'' PreStop None, Invoke ''A2'' PreStop None,
      Invoke ''B1'' Stop None, Invoke ''B2'' Stop None,
      Invoke ''A1'' Stop None, Invoke ''A2'' Stop None,
      Invoke ''B1'' PostStop None, Invoke ''B2'' PostStop None,
      Invoke ''A1'' PostStop None, Invoke ''A2'' PostStop None]"
    by (simp add: two_by_two_groups members_def in_order_def has two_by_two_keys)
  from S have "\<forall>opts b_first.
            failure (start CoreTags in_order (two_groups_registry opts b_first (MockObserver ''B'')) [])
              = None \<and>
            failure (stop CoreTags in_order (two_groups_registry opts b_first (MockObserver ''B''))
                       (state (start CoreTags in_order
                                 (two_groups_registry opts b_first (MockObserver ''B'')) [])))
              = None \<and>
            state (stop CoreTags in_order (two_groups_registry opts b_first (MockObserver ''B''))
                     (state (start CoreTags in_order
                               (two_groups_registry opts b_first (MockObserver ''B'')) []))) =
              [''preStart-A'', ''preStart-B'', ''start-A'', ''start-B'',
               ''postStart-A'', ''postStart-B'',
               ''preStop-B'', ''preStop-A'', ''stop-B'', ''stop-A'',
               ''postStop-B'', ''postStop-A'']"
    by (elim conjE)
  from this[rule_format, of None True]
  have 2: "state (stop CoreTags in_order (two_groups_registry None True (MockObserver ''B''))
            (state (start CoreTags in_order
                      (two_groups_registry None True (MockObserver ''B'')) []))) =
     [''preStart-A'', ''preStart-B'', ''start-A'', ''start-B'',
      ''postStart-A'', ''postStart-B'',
      ''preStop-B'', ''preStop-A'', ''stop-B'', ''stop-A'',
      ''postStop-B'', ''postStop-A'']"
    by (elim conjE)
  from perm ok1 ok2 1 2 show ?thesis by (intro conjI)
qed

end
